theory Spec2Isabelle
  imports Complex_Main "HOL-Library.Log_Nat"
begin

section \<open>Numbers\<close>

text \<open>
  A TypeScript \<open>number\<close> is an IEEE 754 binary64 value. A finite double is kept as the
  rational it denotes (\<open>Num\<close>); \<open>Infinity\<close>, \<open>-Infinity\<close> and \<open>NaN\<close> are constructors of
  their own. The two zeros are not told apart: they compare equal, and the only place
  where the sign of a zero shows, a division by zero, takes the divisor as \<open>+0\<close>.
\<close>

datatype double = Num rat | PosInf | NegInf | NaN

text \<open>
  The binary exponent of a positive rational: \<open>ilog2 x = k\<close> when
  \<open>2^k \<le> x < 2^(k+1)\<close>.
\<close>

definition ilog2 :: "rat \<Rightarrow> int" where
  "ilog2 x = (if 1 \<le> x then bitlen \<lfloor>x\<rfloor> - 1 else - bitlen (\<lceil>1 / x\<rceil> - 1))"

text \<open>Rounding to the nearest integer, a tie going to the even one.\<close>

definition rne :: "rat \<Rightarrow> int" where
  "rne y =
     (let n = \<lfloor>y\<rfloor>; r = y - of_int n in
      if r < 1 / 2 then n else if 1 / 2 < r then n + 1 else if even n then n else n + 1)"

text \<open>
  The exponent of the last place of the doubles around \<open>x\<close>: 52 binary places below the
  leading bit, and never below \<open>2^-1074\<close>, the spacing of the subnormal doubles.
\<close>

definition ulp_exponent :: "rat \<Rightarrow> int" where
  "ulp_exponent x = max (ilog2 \<bar>x\<bar> - 52) (- 1074)"

text \<open>
  \<open>rd x\<close> is the multiple of \<open>2^(ulp_exponent x)\<close> nearest to \<open>x\<close>, ties to even: the
  double nearest to \<open>x\<close> when the exponent range is not exceeded.
\<close>

definition rd :: "rat \<Rightarrow> rat" where
  "rd x = (if x = 0 then 0 else of_int (rne (x / 2 powi ulp_exponent x)) * 2 powi ulp_exponent x)"

text \<open>
  The result of an arithmetic operation whose exact value is \<open>x\<close>: the rounded value,
  or an infinity when it reaches \<open>2^1024\<close>. A rational \<open>x\<close> is a double when this
  leaves it as it is.
\<close>

definition overflow_threshold :: rat where
  "overflow_threshold = 2 powi 1024"

definition fl :: "rat \<Rightarrow> double" where
  "fl x =
     (if overflow_threshold \<le> \<bar>rd x\<bar> then (if 0 < x then PosInf else NegInf)
      else Num (rd x))"

definition is_double :: "rat \<Rightarrow> bool" where
  "is_double x = (fl x = Num x)"

text \<open>The operators \<open>-x\<close>, \<open>x + y\<close>, \<open>x - y\<close>, \<open>x * y\<close> and \<open>x / y\<close> on numbers.\<close>

fun js_neg :: "double \<Rightarrow> double" where
  "js_neg (Num a) = Num (- a)"
| "js_neg PosInf = NegInf"
| "js_neg NegInf = PosInf"
| "js_neg NaN = NaN"

fun js_add :: "double \<Rightarrow> double \<Rightarrow> double" where
  "js_add (Num a) (Num b) = fl (a + b)"
| "js_add NaN y = NaN"
| "js_add x NaN = NaN"
| "js_add PosInf NegInf = NaN"
| "js_add NegInf PosInf = NaN"
| "js_add PosInf y = PosInf"
| "js_add x PosInf = PosInf"
| "js_add NegInf y = NegInf"
| "js_add x NegInf = NegInf"

definition js_sub :: "double \<Rightarrow> double \<Rightarrow> double" where
  "js_sub x y = js_add x (js_neg y)"

fun js_mul :: "double \<Rightarrow> double \<Rightarrow> double" where
  "js_mul (Num a) (Num b) = fl (a * b)"
| "js_mul NaN y = NaN"
| "js_mul x NaN = NaN"
| "js_mul (Num a) PosInf = (if a = 0 then NaN else if 0 < a then PosInf else NegInf)"
| "js_mul (Num a) NegInf = (if a = 0 then NaN else if 0 < a then NegInf else PosInf)"
| "js_mul PosInf (Num b) = (if b = 0 then NaN else if 0 < b then PosInf else NegInf)"
| "js_mul NegInf (Num b) = (if b = 0 then NaN else if 0 < b then NegInf else PosInf)"
| "js_mul PosInf PosInf = PosInf"
| "js_mul NegInf NegInf = PosInf"
| "js_mul PosInf NegInf = NegInf"
| "js_mul NegInf PosInf = NegInf"

fun js_div :: "double \<Rightarrow> double \<Rightarrow> double" where
  "js_div (Num a) (Num b) =
     (if b = 0 then (if a = 0 then NaN else if 0 < a then PosInf else NegInf)
      else fl (a / b))"
| "js_div NaN y = NaN"
| "js_div x NaN = NaN"
| "js_div (Num a) y = Num 0"
| "js_div PosInf (Num b) = (if 0 \<le> b then PosInf else NegInf)"
| "js_div NegInf (Num b) = (if 0 \<le> b then NegInf else PosInf)"
| "js_div x y = NaN"

text \<open>
  The comparisons \<open>x < y\<close>, \<open>x === y\<close>, \<open>x > y\<close>, \<open>x <= y\<close> and \<open>x >= y\<close>: each is false when
  an operand is \<open>NaN\<close>.
\<close>

fun js_lt :: "double \<Rightarrow> double \<Rightarrow> bool" where
  "js_lt (Num a) (Num b) = (a < b)"
| "js_lt NaN y = False"
| "js_lt x NaN = False"
| "js_lt x NegInf = False"
| "js_lt PosInf y = False"
| "js_lt x y = True"

fun js_eq :: "double \<Rightarrow> double \<Rightarrow> bool" where
  "js_eq NaN y = False"
| "js_eq x NaN = False"
| "js_eq x y = (x = y)"

definition js_gt :: "double \<Rightarrow> double \<Rightarrow> bool" where
  "js_gt x y = js_lt y x"

definition js_le :: "double \<Rightarrow> double \<Rightarrow> bool" where
  "js_le x y = (js_lt x y \<or> js_eq x y)"

definition js_ge :: "double \<Rightarrow> double \<Rightarrow> bool" where
  "js_ge x y = js_le y x"

text \<open>\<open>Math.abs\<close>, \<open>Math.min\<close> and \<open>Math.max\<close>.\<close>

fun Math_abs :: "double \<Rightarrow> double" where
  "Math_abs (Num a) = Num \<bar>a\<bar>"
| "Math_abs NaN = NaN"
| "Math_abs x = PosInf"

fun Math_min :: "double \<Rightarrow> double \<Rightarrow> double" where
  "Math_min NaN y = NaN"
| "Math_min x NaN = NaN"
| "Math_min x y = (if js_lt y x then y else x)"

fun Math_max :: "double \<Rightarrow> double \<Rightarrow> double" where
  "Math_max NaN y = NaN"
| "Math_max x NaN = NaN"
| "Math_max x y = (if js_lt x y then y else x)"

text \<open>
  \<open>Math.round(x)\<close>: the integer nearest to the value of the double, a tie going up; the
  result is computed exactly and is a double.
\<close>

fun Math_round :: "double \<Rightarrow> double" where
  "Math_round (Num a) = Num (of_int \<lfloor>a + 1 / 2\<rfloor>)"
| "Math_round x = x"

text \<open>
  \<open>Number(x.toFixed(4))\<close>. \<open>toFixed\<close> takes the integer \<open>n\<close> for which \<open>n / 10^4\<close> is
  nearest to the exact value of the double (the larger \<open>n\<close> on a tie, on the magnitude of
  a negative \<open>x\<close>) and prints its digits; \<open>Number\<close> reads the digits back as the double
  nearest to \<open>n / 10^4\<close>. From \<open>10^21\<close> on, and for \<open>NaN\<close> and the infinities, \<open>toFixed\<close>
  prints the number as \<open>String\<close> does, and \<open>Number\<close> reads the same number back.
\<close>

fun Number_toFixed4 :: "double \<Rightarrow> double" where
  "Number_toFixed4 (Num a) =
     (if 10 ^ 21 \<le> \<bar>a\<bar> then Num a
      else fl ((if a < 0 then - 1 else 1) * of_int \<lfloor>\<bar>a\<bar> * 10000 + 1 / 2\<rfloor> / 10000))"
| "Number_toFixed4 x = x"

text \<open>
  An amount kept in a \<open>NUMERIC\<close> column of the database is an exact rational.
\<close>

type_synonym number = rat

section \<open>Claim resolution: \<open>ClaimResolutionService\<close>\<close>

record VoteWeightSummary =
  trueWeight :: double
  falseWeight :: double

definition MIN_REQUIRED_WEIGHT :: double where
  "MIN_REQUIRED_WEIGHT = Num 100"

text \<open>\<open>computeConfidenceScore\<close>; \<open>None\<close> is the \<open>null\<close> result.\<close>

definition computeConfidenceScore :: "VoteWeightSummary \<Rightarrow> double option" where
  "computeConfidenceScore votes =
     (let total = js_add (trueWeight votes) (falseWeight votes) in
      if js_lt total MIN_REQUIRED_WEIGHT then None
      else if js_eq (trueWeight votes) (falseWeight votes) then Some (Num 0)
      else
        let margin = js_div (Math_abs (js_sub (trueWeight votes) (falseWeight votes))) total;
            participation = Math_min (js_div total MIN_REQUIRED_WEIGHT) (Num 1)
        in Some (Number_toFixed4 (js_mul margin participation)))"

section \<open>Verification aggregation: \<open>AggregationService\<close>\<close>

datatype VerificationVerdict = TRUE | FALSE

datatype ClaimStatus = VERIFIED_TRUE | VERIFIED_FALSE | INCONCLUSIVE

record Verification =
  v_id :: string
  v_claimId :: string
  v_userId :: string
  verdict :: VerificationVerdict
  stakeAmount :: double
  reputationWeight :: double
  v_createdAt :: int

record AggregationMetadata =
  m_trueWeight :: double
  m_falseWeight :: double
  verificationCount :: nat

record AggregationResult =
  r_claimId :: string
  status :: ClaimStatus
  confidence :: double
  metadata :: AggregationMetadata

definition computeWeight :: "Verification \<Rightarrow> double" where
  "computeWeight v = js_mul (stakeAmount v) (reputationWeight v)"

definition computeConfidence :: "double \<Rightarrow> double \<Rightarrow> double" where
  "computeConfidence winningWeight totalWeight =
     Math_round (js_mul (js_div winningWeight totalWeight) (Num 100))"

definition inconclusiveResult ::
  "string \<Rightarrow> double \<Rightarrow> double \<Rightarrow> nat \<Rightarrow> AggregationResult" where
  "inconclusiveResult cid tw fw count =
     \<lparr>r_claimId = cid, status = INCONCLUSIVE, confidence = Num 0,
      metadata = \<lparr>m_trueWeight = tw, m_falseWeight = fw, verificationCount = count\<rparr>\<rparr>"

text \<open>
  The \<open>for (const v of verifications)\<close> loop of \<open>aggregate\<close>, on the pair of running
  totals \<open>(trueWeight, falseWeight)\<close>.
\<close>

fun tally :: "Verification list \<Rightarrow> double \<times> double \<Rightarrow> double \<times> double" where
  "tally [] acc = acc"
| "tally (v # vs) (tw, fw) =
     (let weight = computeWeight v in
      if verdict v = TRUE then tally vs (js_add tw weight, fw)
      else tally vs (tw, js_add fw weight))"

definition aggregate :: "string \<Rightarrow> Verification list \<Rightarrow> AggregationResult" where
  "aggregate cid verifications =
     (if length verifications = 0 then
        \<lparr>r_claimId = cid, status = INCONCLUSIVE, confidence = Num 0,
         metadata = \<lparr>m_trueWeight = Num 0, m_falseWeight = Num 0, verificationCount = 0\<rparr>\<rparr>
      else
        let (tw, fw) = tally verifications (Num 0, Num 0);
            totalWeight = js_add tw fw
        in
          if js_eq totalWeight (Num 0) then inconclusiveResult cid tw fw (length verifications)
          else if js_eq tw fw then inconclusiveResult cid tw fw (length verifications)
          else
            let st = (if js_gt tw fw then VERIFIED_TRUE else VERIFIED_FALSE);
                conf = computeConfidence (Math_max tw fw) totalWeight
            in
              if js_lt conf (Num 10) then inconclusiveResult cid tw fw (length verifications)
              else
                \<lparr>r_claimId = cid, status = st, confidence = conf,
                 metadata = \<lparr>m_trueWeight = tw, m_falseWeight = fw,
                             verificationCount = length verifications\<rparr>\<rparr>)"

text \<open>
  The weight the loop accumulates for one verdict: the products
  \<open>stakeAmount * reputationWeight\<close> of the verifications with that verdict, added up from
  0 in the order of the list, each product and each sum rounded to a double.
\<close>

definition weightFor :: "VerificationVerdict \<Rightarrow> Verification list \<Rightarrow> double" where
  "weightFor d vs = foldl js_add (Num 0) (map computeWeight (filter (\<lambda>v. verdict v = d) vs))"

text \<open>A number that is a non-negative finite double.\<close>

definition nonneg_double :: "double \<Rightarrow> bool" where
  "nonneg_double d = (case d of Num a \<Rightarrow> is_double a \<and> 0 \<le> a | _ \<Rightarrow> False)"

text \<open>
  Two verifications of the repository's test "allows reputation-weighted minority to
  win"; the reputation \<open>0.2\<close> of the test is the double \<open>3602879701896397 / 2^54\<close>. And a
  verification with a given verdict and stake, of reputation 1.
\<close>

definition minority_false :: Verification where
  "minority_false =
     \<lparr>v_id = ''1'', v_claimId = ''claim-1'', v_userId = ''a'', verdict = FALSE,
      stakeAmount = Num 20, reputationWeight = Num (3602879701896397 / 2 ^ 54),
      v_createdAt = 0\<rparr>"

definition minority_true :: Verification where
  "minority_true =
     \<lparr>v_id = ''2'', v_claimId = ''claim-1'', v_userId = ''b'', verdict = TRUE,
      stakeAmount = Num 5, reputationWeight = Num 2, v_createdAt = 0\<rparr>"

definition vote :: "VerificationVerdict \<Rightarrow> rat \<Rightarrow> Verification" where
  "vote d w =
     \<lparr>v_id = ''v'', v_claimId = ''claim-1'', v_userId = ''u'', verdict = d,
      stakeAmount = Num w, reputationWeight = Num 1, v_createdAt = 0\<rparr>"

section \<open>Sybil-weighted votes: \<open>SybilResistantVotingService\<close>\<close>

text \<open>
  A row of the \<open>SybilScore\<close> table. \<open>getLatestSybilScore\<close> belongs to another service; it
  is a parameter of the model, a lookup that yields the user's latest score or fails.
\<close>

record SybilScore =
  worldcoinScore :: double
  walletAgeScore :: double
  stakingScore :: double
  accuracyScore :: double
  compositeScore :: double

record SybilWeightedVote =
  w_userId :: string
  baseWeight :: double
  sybilScore :: double
  multiplier :: double
  finalWeight :: double

text \<open>
  \<open>calculateSybilWeightedVote\<close>. The \<open>explanation\<close> string and the debug log line only
  format the numbers computed here and are left out; \<open>None\<close> is a rejected lookup.
\<close>

definition calculateSybilWeightedVote ::
  "(string \<Rightarrow> SybilScore option) \<Rightarrow> string \<Rightarrow> double \<Rightarrow> SybilWeightedVote option" where
  "calculateSybilWeightedVote getLatestSybilScore uid bw =
     (case getLatestSybilScore uid of
        None \<Rightarrow> None
      | Some sc \<Rightarrow>
          let mult = js_add (Num (1 / 2)) (js_mul (Num (1 / 2)) (compositeScore sc));
              fin = js_mul bw mult
          in Some \<lparr>w_userId = uid, baseWeight = bw, sybilScore = compositeScore sc,
                    multiplier = mult, finalWeight = fin\<rparr>)"

text \<open>A Sybil score with a given composite score, its components all 1.\<close>

definition score :: "rat \<Rightarrow> SybilScore" where
  "score s =
     \<lparr>worldcoinScore = Num 1, walletAgeScore = Num 1, stakingScore = Num 1,
      accuracyScore = Num 1, compositeScore = Num s\<rparr>"

section \<open>Reward synchronisation: repositories and \<open>RewardSyncService\<close>\<close>

text \<open>
  The event DTOs the listener hands to the sync service. An optional field
  (\<open>claimId?\<close>, \<open>eventName?\<close>, \<open>metadata?\<close>) is an \<open>option\<close>; \<open>metadata\<close> is kept as
  its serialised text.
\<close>

record RewardClaimEventDto =
  dto_walletAddress :: string
  dto_amount :: string
  dto_claimId :: "string option"
  dto_txHash :: string
  dto_blockNumber :: int
  dto_logIndex :: int
  dto_blockTimestamp :: int
  dto_eventName :: "string option"
  dto_metadata :: "string option"

record RewardDistributionEventDto =
  dd_recipients :: "string list"
  dd_amounts :: "string list"
  dd_distributionId :: "string option"
  dd_txHash :: string
  dd_blockNumber :: int
  dd_logIndex :: int
  dd_blockTimestamp :: int
  dd_eventName :: "string option"
  dd_metadata :: "string option"

text \<open>
  Rows of \<open>reward_claims\<close> and \<open>reward_distributions\<close>. The generated \<open>id\<close> is drawn
  from a counter; \<open>blockTimestamp\<close> is the \<open>Date\<close> in milliseconds; the \<open>createdAt\<close>
  column, filled by the database clock, is left out.
\<close>

record RewardClaim =
  rc_id :: nat
  rc_walletAddress :: string
  rc_amount :: string
  rc_claimId :: "string option"
  rc_txHash :: string
  rc_blockNumber :: int
  rc_logIndex :: int
  rc_blockTimestamp :: int
  rc_eventName :: string
  rc_metadata :: "string option"
  rc_isProcessed :: bool

record RewardDistribution =
  rd_id :: nat
  rd_recipients :: "string list"
  rd_amounts :: "string list"
  rd_distributionId :: "string option"
  rd_txHash :: string
  rd_blockNumber :: int
  rd_logIndex :: int
  rd_blockTimestamp :: int
  rd_eventName :: string
  rd_metadata :: "string option"
  rd_isProcessed :: bool

datatype error = UniqueViolation | ConflictException | RpcError | InvalidNumeric

text \<open>One constructor for each message the services write to their logger.\<close>

datatype LogEntry =
    Warn_DuplicateClaim string int
  | Log_ClaimSynced string string string
  | Warn_DuplicateDistribution string int
  | Log_DistributionSynced nat string
  | Error_HandlingRewardClaimed
  | Error_HandlingRewardDistributed
  | Log_ProcessedBlocks int int nat nat
  | Error_ProcessingBlockRange int int
  | Log_NoHistoricalEvents
  | Log_Backfilling int int
  | Log_BackfillComplete

text \<open>
  An entry of the call history: a scan of a block range, or a call of one of the two
  sync methods with its DTO. The source keeps no such history; the model records it so
  that the order of the calls can be stated.
\<close>

datatype Call =
    Scan int int
  | ApplyClaim RewardClaimEventDto
  | ApplyDistribution RewardDistributionEventDto

record SyncState =
  reward_claims :: "RewardClaim list"
  reward_distributions :: "RewardDistribution list"
  next_id :: nat
  logs :: "LogEntry list"
  history :: "Call list"

text \<open>\<open>String.prototype.toLowerCase\<close> on the ASCII letters (addresses are hexadecimal).\<close>

definition lower_char :: "char \<Rightarrow> char" where
  "lower_char c =
     (case map_of (zip ''ABCDEFGHIJKLMNOPQRSTUVWXYZ'' ''abcdefghijklmnopqrstuvwxyz'') c of
        None \<Rightarrow> c
      | Some d \<Rightarrow> d)"

definition toLowerCase :: "string \<Rightarrow> string" where
  "toLowerCase s = map lower_char s"

text \<open>\<open>x || d\<close> on an optional string: the default when \<open>x\<close> is undefined or empty.\<close>

definition or_string :: "string option \<Rightarrow> string \<Rightarrow> string" where
  "or_string x d = (case x of None \<Rightarrow> d | Some s \<Rightarrow> if s = [] then d else s)"

subsection \<open>\<open>RewardClaimRepository\<close> and \<open>RewardDistributionRepository\<close>\<close>

definition claim_findByTxHashAndLogIndex ::
  "SyncState \<Rightarrow> string \<Rightarrow> int \<Rightarrow> RewardClaim option" where
  "claim_findByTxHashAndLogIndex st tx li =
     find (\<lambda>r. rc_txHash r = tx \<and> rc_logIndex r = li) (reward_claims st)"


text \<open>
  \<open>create\<close>: \<open>repository.save\<close> inserts the row under a fresh id. The table is
  \<open>@Unique(['txHash', 'logIndex'])\<close>, so the insert is refused (PostgreSQL error 23505)
  when a row with the same pair is present.
\<close>

definition claim_create :: "RewardClaim \<Rightarrow> SyncState \<Rightarrow> error + RewardClaim \<times> SyncState" where
  "claim_create data st =
     (if \<exists>r \<in> set (reward_claims st). rc_txHash r = rc_txHash data \<and> rc_logIndex r = rc_logIndex data
      then Inl UniqueViolation
      else
        let row = data\<lparr>rc_id := next_id st\<rparr> in
        Inr (row, st\<lparr>reward_claims := reward_claims st @ [row], next_id := next_id st + 1\<rparr>))"






subsection \<open>\<open>RewardSyncService\<close>\<close>

definition processRewardClaim ::
  "RewardClaimEventDto \<Rightarrow> SyncState \<Rightarrow> (error + RewardClaim) \<times> SyncState" where
  "processRewardClaim eventDto st =
     (case claim_findByTxHashAndLogIndex st (dto_txHash eventDto) (dto_logIndex eventDto) of
        Some existing \<Rightarrow>
          (Inr existing,
           st\<lparr>logs := logs st @ [Warn_DuplicateClaim (dto_txHash eventDto) (dto_logIndex eventDto)]\<rparr>)
      | None \<Rightarrow>
          (case claim_create
                  \<lparr>rc_id = 0,
                   rc_walletAddress = toLowerCase (dto_walletAddress eventDto),
                   rc_amount = dto_amount eventDto,
                   rc_claimId = dto_claimId eventDto,
                   rc_txHash = dto_txHash eventDto,
                   rc_blockNumber = dto_blockNumber eventDto,
                   rc_logIndex = dto_logIndex eventDto,
                   rc_blockTimestamp = dto_blockTimestamp eventDto * 1000,
                   rc_eventName = or_string (dto_eventName eventDto) ''RewardClaimed'',
                   rc_metadata = dto_metadata eventDto,
                   rc_isProcessed = True\<rparr> st of
             Inl e \<Rightarrow> (if e = UniqueViolation then (Inl ConflictException, st) else (Inl e, st))
           | Inr (claim, st') \<Rightarrow>
               (Inr claim,
                st'\<lparr>logs := logs st' @
                   [Log_ClaimSynced (dto_walletAddress eventDto) (dto_amount eventDto)
                      (dto_txHash eventDto)]\<rparr>)))"



section \<open>The listener: \<open>BlockchainListenerService\<close>\<close>

























text \<open>The pair that \<open>@Unique(['txHash', 'logIndex'])\<close> keeps distinct.\<close>

definition claim_key :: "RewardClaim \<Rightarrow> string \<times> int" where
  "claim_key r = (rc_txHash r, rc_logIndex r)"


subsection \<open>Example inputs\<close>








section \<open>The idempotent indexer of the design: \<open>processEvent\<close> and \<open>replayFromBlock\<close>\<close>

text \<open>
  The event the indexer receives, with the \<open>data\<close> of a transfer, and the rows of the
  tables \<open>processed_events\<close> and \<open>token_balances\<close>. The \<open>processed_at\<close> and
  \<open>last_updated\<close> columns, filled by the database clock, are left out. A balance is an
  exact number: the precision of \<open>DECIMAL(36,18)\<close> is not modelled.
\<close>

record TransferData =
  td_from :: string
  td_to :: string
  td_amount :: string
  td_token :: string

record BlockchainEvent =
  ev_txHash :: string
  ev_logIndex :: int
  ev_blockNumber :: int
  ev_eventType :: string
  ev_data :: TransferData

record ProcessedEvent =
  pe_id :: nat
  tx_hash :: string
  log_index :: int
  block_number :: int
  event_type :: string

record TokenBalance =
  tb_address :: string
  token_address :: string
  balance :: number

text \<open>
  The database: the two tables, the \<open>last_block\<close> of the checkpoint row with \<open>id = 1\<close>
  (\<open>None\<close> when the row does not exist), and the sequence behind the \<open>SERIAL\<close> id of
  \<open>processed_events\<close>.
\<close>

record IndexerDb =
  processed_events :: "ProcessedEvent list"
  token_balances :: "TokenBalance list"
  last_block :: "int option"
  processed_events_id_seq :: nat

text \<open>
  \<open>SELECT id FROM processed_events WHERE tx_hash = $1 AND log_index = $2 AND
  block_number = $3\<close> finds a row.
\<close>

definition already_processed :: "BlockchainEvent \<Rightarrow> IndexerDb \<Rightarrow> bool" where
  "already_processed event db =
     (\<exists>r \<in> set (processed_events db).
        tx_hash r = ev_txHash event \<and> log_index r = ev_logIndex event
        \<and> block_number r = ev_blockNumber event)"

text \<open>
  The \<open>INSERT\<close> into \<open>processed_events\<close>, refused by
  \<open>UNIQUE(tx_hash, log_index, block_number)\<close> when the triple is present.
\<close>

definition insert_processed_event :: "BlockchainEvent \<Rightarrow> IndexerDb \<Rightarrow> error + IndexerDb" where
  "insert_processed_event event db =
     (if already_processed event db then Inl UniqueViolation
      else Inr (db\<lparr>processed_events := processed_events db @
                    [\<lparr>pe_id = processed_events_id_seq db, tx_hash = ev_txHash event,
                      log_index = ev_logIndex event, block_number = ev_blockNumber event,
                      event_type = ev_eventType event\<rparr>],
                  processed_events_id_seq := processed_events_id_seq db + 1\<rparr>))"

text \<open>
  \<open>updateBalances\<close>: the two \<open>UPDATE\<close> statements, one after the other. The amount is
  a string that the database reads as a number; the reader \<open>numeric\<close> is the database's
  and is a parameter of the model, \<open>None\<close> when it refuses the string, in which case
  the statement fails.
\<close>

definition updateBalances ::
  "(string \<Rightarrow> number option) \<Rightarrow> TransferData \<Rightarrow> TokenBalance list \<Rightarrow> error + TokenBalance list" where
  "updateBalances numeric d rows =
     (case numeric (td_amount d) of
        None \<Rightarrow> Inl InvalidNumeric
      | Some amount \<Rightarrow>
          let rows1 = map (\<lambda>r. if tb_address r = td_from d \<and> token_address r = td_token d
                                then r\<lparr>balance := balance r - amount\<rparr> else r) rows;
              rows2 = map (\<lambda>r. if tb_address r = td_to d \<and> token_address r = td_token d
                                then r\<lparr>balance := balance r + amount\<rparr> else r) rows1
          in Inr rows2)"

text \<open>
  \<open>processEvent\<close>. An event already recorded is skipped. Otherwise the insert, the
  balance update of a \<open>Transfer\<close> and the checkpoint update
  \<open>last_block = GREATEST(last_block, blockNumber)\<close> run in one transaction: an error
  rolls the tables and the checkpoint back and is thrown again (\<open>Some\<close> error); the
  sequence keeps the id it handed out.
\<close>

definition processEvent ::
  "(string \<Rightarrow> number option) \<Rightarrow> BlockchainEvent \<Rightarrow> IndexerDb \<Rightarrow> error option \<times> IndexerDb" where
  "processEvent numeric event db =
     (if already_processed event db then (None, db)
      else
        case insert_processed_event event db of
          Inl e \<Rightarrow>
            (Some e, db\<lparr>processed_events_id_seq := processed_events_id_seq db + 1\<rparr>)
        | Inr db1 \<Rightarrow>
            (case (if ev_eventType event = ''Transfer''
                   then updateBalances numeric (ev_data event) (token_balances db1)
                   else Inr (token_balances db1)) of
               Inl e \<Rightarrow>
                 (Some e, db\<lparr>processed_events_id_seq := processed_events_id_seq db1\<rparr>)
             | Inr balances \<Rightarrow>
                 (None,
                  db1\<lparr>token_balances := balances,
                      last_block := map_option (\<lambda>b. max b (ev_blockNumber event))
                                      (last_block db1)\<rparr>)))"

text \<open>
  \<open>replayFromBlock\<close>. First the \<open>DELETE FROM processed_events WHERE block_number >= $1\<close>.
\<close>

definition deleteFrom :: "int \<Rightarrow> IndexerDb \<Rightarrow> IndexerDb" where
  "deleteFrom startBlock db =
     db\<lparr>processed_events := filter (\<lambda>r. \<not> block_number r \<ge> startBlock) (processed_events db)\<rparr>"

text \<open>The inner loop over the events of one block; an error thrown leaves it.\<close>

fun processEvents ::
  "(string \<Rightarrow> number option) \<Rightarrow> BlockchainEvent list \<Rightarrow> IndexerDb \<Rightarrow> error option \<times> IndexerDb" where
  "processEvents numeric [] db = (None, db)"
| "processEvents numeric (event # events) db =
     (case processEvent numeric event db of
        (Some e, db') \<Rightarrow> (Some e, db')
      | (None, db') \<Rightarrow> processEvents numeric events db')"

text \<open>
  The outer loop \<open>for (let block = startBlock; ; block++)\<close>, left at the first block
  for which \<open>fetchEventsForBlock\<close> returns no event, or by an error. The chain behind
  \<open>fetchEventsForBlock\<close> is a parameter. The loop need not end: the result is \<open>None\<close>
  when it runs forever.
\<close>

partial_function (option) replay_loop ::
  "(string \<Rightarrow> number option) \<Rightarrow> (int \<Rightarrow> BlockchainEvent list) \<Rightarrow> int \<Rightarrow> IndexerDb
     \<Rightarrow> (error option \<times> IndexerDb) option" where
  "replay_loop numeric fetchEventsForBlock block db =
     (if length (fetchEventsForBlock block) = 0 then Some (None, db)
      else
        case processEvents numeric (fetchEventsForBlock block) db of
          (Some e, db') \<Rightarrow> Some (Some e, db')
        | (None, db') \<Rightarrow> replay_loop numeric fetchEventsForBlock (block + 1) db')"

definition replayFromBlock ::
  "(string \<Rightarrow> number option) \<Rightarrow> (int \<Rightarrow> BlockchainEvent list) \<Rightarrow> int \<Rightarrow> IndexerDb
     \<Rightarrow> (error option \<times> IndexerDb) option" where
  "replayFromBlock numeric fetchEventsForBlock startBlock db =
     replay_loop numeric fetchEventsForBlock startBlock (deleteFrom startBlock db)"

text \<open>
  The events a replay from \<open>startBlock\<close> meets in its first \<open>n\<close> blocks, in order, and the
  row that records an event.
\<close>

definition replayed :: "(int \<Rightarrow> BlockchainEvent list) \<Rightarrow> int \<Rightarrow> nat \<Rightarrow> BlockchainEvent list" where
  "replayed fetchEventsForBlock startBlock n =
     concat (map (\<lambda>k. fetchEventsForBlock (startBlock + int k)) [0..<n])"

definition row_of :: "BlockchainEvent \<Rightarrow> ProcessedEvent \<Rightarrow> bool" where
  "row_of ev r = (tx_hash r = ev_txHash ev \<and> log_index r = ev_logIndex ev
                   \<and> block_number r = ev_blockNumber ev \<and> event_type r = ev_eventType ev)"

subsection \<open>Example inputs\<close>

text \<open>A reader of numbers that accepts the non-empty strings of decimal digits.\<close>

definition digit_value :: "char \<Rightarrow> nat option" where
  "digit_value c = map_of (zip ''0123456789'' [0, 1, 2, 3, 4, 5, 6, 7, 8, 9]) c"

fun digits_value :: "string \<Rightarrow> nat \<Rightarrow> nat option" where
  "digits_value [] acc = Some acc"
| "digits_value (c # cs) acc =
     (case digit_value c of None \<Rightarrow> None | Some d \<Rightarrow> digits_value cs (10 * acc + d))"

definition plain_numeric :: "string \<Rightarrow> number option" where
  "plain_numeric s = (if s = [] then None else map_option of_nat (digits_value s 0))"

definition transfer_100_bad :: BlockchainEvent where
  "transfer_100_bad =
     \<lparr>ev_txHash = ''0xa0'', ev_logIndex = 0, ev_blockNumber = 100, ev_eventType = ''Transfer'',
      ev_data = \<lparr>td_from = ''0x01'', td_to = ''0x02'', td_amount = ''abc'', td_token = ''0xT''\<rparr>\<rparr>"

definition transfer_101 :: BlockchainEvent where
  "transfer_101 =
     \<lparr>ev_txHash = ''0xa1'', ev_logIndex = 0, ev_blockNumber = 101, ev_eventType = ''Transfer'',
      ev_data = \<lparr>td_from = ''0x01'', td_to = ''0x02'', td_amount = ''5'', td_token = ''0xT''\<rparr>\<rparr>"

text \<open>A database whose checkpoint is at block 99, with two balances and no event.\<close>

definition db_at_99 :: IndexerDb where
  "db_at_99 =
     \<lparr>processed_events = [],
      token_balances = [\<lparr>tb_address = ''0x01'', token_address = ''0xT'', balance = 50\<rparr>,
                        \<lparr>tb_address = ''0x02'', token_address = ''0xT'', balance = 0\<rparr>],
      last_block = Some 99,
      processed_events_id_seq = 1\<rparr>"

text \<open>A database that has recorded one event of block 5 and one of block 2.\<close>

definition db_with_5 :: IndexerDb where
  "db_with_5 =
     \<lparr>processed_events =
        [\<lparr>pe_id = 1, tx_hash = ''0xb2'', log_index = 0, block_number = 2, event_type = ''Mint''\<rparr>,
         \<lparr>pe_id = 2, tx_hash = ''0xb5'', log_index = 0, block_number = 5, event_type = ''Mint''\<rparr>],
      token_balances = [],
      last_block = Some 5,
      processed_events_id_seq = 3\<rparr>"

text \<open>A chain whose block 3 holds one transfer and whose other blocks hold no event.\<close>

definition transfer_3 :: BlockchainEvent where
  "transfer_3 =
     \<lparr>ev_txHash = ''0xc3'', ev_logIndex = 0, ev_blockNumber = 3, ev_eventType = ''Transfer'',
      ev_data = \<lparr>td_from = ''0x01'', td_to = ''0x02'', td_amount = ''5'', td_token = ''0xT''\<rparr>\<rparr>"

definition chain_3 :: "int \<Rightarrow> BlockchainEvent list" where
  "chain_3 b = (if b = 3 then [transfer_3] else [])"

section \<open>The event store of the specification: \<open>indexed_events\<close>\<close>

text \<open>
  The table \<open>indexed_events\<close> is declared by the migration
  \<open>CreateUserAndWallet1769422695901\<close>; the services that write it are not among the
  sources. A row has the columns of the migration (the \<open>createdAt\<close> and \<open>updatedAt\<close>
  columns, filled by the database clock, are left out), and an observed log carries the
  columns that have no default.
\<close>

record IndexedEvent =
  ie_id :: nat
  ie_eventType :: string
  ie_contractAddress :: string
  ie_transactionHash :: string
  ie_blockNumber :: int
  ie_logIndex :: int
  ie_chainId :: int
  ie_eventData :: string
  ie_parsedData :: string
  confirmations :: int
  isFinalized :: bool
  isProcessed :: bool
  processedAt :: "int option"
  processingError :: "string option"
  retryAttempts :: int

record ObservedLog =
  ol_eventType :: string
  ol_contractAddress :: string
  ol_transactionHash :: string
  ol_blockNumber :: int
  ol_logIndex :: int
  ol_chainId :: int
  ol_eventData :: string
  ol_parsedData :: string

text \<open>
  The row an insert creates: the migration's defaults \<open>confirmations = 0\<close>,
  \<open>isFinalized = false\<close>, \<open>isProcessed = false\<close>, \<open>retryAttempts = 0\<close>, and NULL in the
  nullable columns.
\<close>

definition new_row :: "nat \<Rightarrow> ObservedLog \<Rightarrow> IndexedEvent" where
  "new_row i l =
     \<lparr>ie_id = i, ie_eventType = ol_eventType l, ie_contractAddress = ol_contractAddress l,
      ie_transactionHash = ol_transactionHash l, ie_blockNumber = ol_blockNumber l,
      ie_logIndex = ol_logIndex l, ie_chainId = ol_chainId l, ie_eventData = ol_eventData l,
      ie_parsedData = ol_parsedData l, confirmations = 0, isFinalized = False,
      isProcessed = False, processedAt = None, processingError = None, retryAttempts = 0\<rparr>"

text \<open>
  The keys of the two unique indexes of the migration, on
  \<open>("transactionHash", "logIndex", "eventType")\<close> and on \<open>("blockNumber", "logIndex")\<close>.
\<close>

definition tx_key :: "IndexedEvent \<Rightarrow> string \<times> int \<times> string" where
  "tx_key e = (ie_transactionHash e, ie_logIndex e, ie_eventType e)"

definition block_key :: "IndexedEvent \<Rightarrow> int \<times> int" where
  "block_key e = (ie_blockNumber e, ie_logIndex e)"

definition both_unique :: "IndexedEvent list \<Rightarrow> bool" where
  "both_unique es = (distinct (map tx_key es) \<and> distinct (map block_key es))"

text \<open>
  Modelled from the spec: the cursors and the status of an IndexingState, as the data
  model of the specification gives them (reconciliation reads and writes them), and the
  engine's state: the rows of the store, the indexing state and the next generated id.
\<close>

datatype SourceStatus = idle | scanning | processing | error_status

record IndexingState =
  lastProcessedBlockNumber :: int
  lastScannedBlockNumber :: int
  lastFinalizedBlockNumber :: int
  source_status :: SourceStatus

record Engine =
  indexed_events :: "IndexedEvent list"
  indexing_state :: IndexingState
  next_event_id :: nat

datatype PersistResult = inserted | duplicate

text \<open>
  Modelled from the spec: the Event Store's \<open>persist\<close>, whose code is not among the
  sources. "attempts insert; if either uniqueness constraint already matches, returns
  \<open>duplicate\<close> without error and without mutating the existing row."
\<close>

definition persist :: "ObservedLog \<Rightarrow> Engine \<Rightarrow> PersistResult \<times> Engine" where
  "persist l en =
     (let row = new_row (next_event_id en) l in
      if tx_key row \<in> set (map tx_key (indexed_events en))
         \<or> block_key row \<in> set (map block_key (indexed_events en))
      then (duplicate, en)
      else (inserted,
            en\<lparr>indexed_events := indexed_events en @ [row],
               next_event_id := next_event_id en + 1\<rparr>))"

text \<open>
  Modelled from the spec: the update of one row by its id, shared by the three mark
  operations of the Event Store, whose code is not among the sources. "each
  increments/overwrites exactly the relevant fields."
\<close>

definition update_row :: "nat \<Rightarrow> (IndexedEvent \<Rightarrow> IndexedEvent) \<Rightarrow> Engine \<Rightarrow> Engine" where
  "update_row i f en =
     en\<lparr>indexed_events := map (\<lambda>e. if ie_id e = i then f e else e) (indexed_events en)\<rparr>"

text \<open>
  Modelled from the spec: the Event Store's \<open>markFinalized(eventId)\<close>, whose code is not
  among the sources; the relevant field is the finalization flag.
\<close>

definition markFinalized :: "nat \<Rightarrow> Engine \<Rightarrow> Engine" where
  "markFinalized i en = update_row i (\<lambda>e. e\<lparr>isFinalized := True\<rparr>) en"

text \<open>
  Modelled from the spec: the Event Store's \<open>markProcessed(eventId, ts)\<close>, whose code is
  not among the sources; the relevant fields are the processed flag and its time.
\<close>

definition markProcessed :: "nat \<Rightarrow> int \<Rightarrow> Engine \<Rightarrow> Engine" where
  "markProcessed i ts en = update_row i (\<lambda>e. e\<lparr>isProcessed := True, processedAt := Some ts\<rparr>) en"

text \<open>
  Modelled from the spec: the Event Store's \<open>recordProcessingFailure(eventId, message)\<close>,
  whose code is not among the sources; the retry counter is incremented and the error
  message overwritten.
\<close>

definition recordProcessingFailure :: "nat \<Rightarrow> string \<Rightarrow> Engine \<Rightarrow> Engine" where
  "recordProcessingFailure i message en =
     update_row i (\<lambda>e. e\<lparr>retryAttempts := retryAttempts e + 1,
                          processingError := Some message\<rparr>) en"

text \<open>
  Modelled from the spec: the Confirmation Tracker's rule for one event; the tracker's
  code is not among the sources. The confirmations of an event are "recomputed, not
  persisted as ground truth - derived from current head minus \<open>blockNumber\<close>" and
  "incremented over time", the event being "\<open>isFinalized=true\<close> once
  \<open>confirmations \<ge> confirmationsRequired\<close>"; and "given the current head block height
  \<open>H\<close> and \<open>confirmationsRequired = C\<close>, for every event with \<open>isFinalized = false\<close> and
  \<open>blockNumber \<le> H - C\<close>: set \<open>confirmations = H - blockNumber\<close>, \<open>isFinalized = true\<close>."
  So a pass gives every event not yet finalized the confirmations \<open>H - blockNumber\<close>, and
  finalizes it when these reach \<open>C\<close>; an event that is finalized is left as it is.
\<close>

definition track_event :: "int \<Rightarrow> int \<Rightarrow> IndexedEvent \<Rightarrow> IndexedEvent" where
  "track_event H C e =
     (if isFinalized e then e
      else e\<lparr>confirmations := H - ie_blockNumber e,
             isFinalized := (ie_blockNumber e \<le> H - C)\<rparr>)"

text \<open>
  Modelled from the spec: a pass of the Confirmation Tracker, whose code is not among
  the sources: the rule above "for every event" of the store.
\<close>

definition trackConfirmations :: "int \<Rightarrow> int \<Rightarrow> Engine \<Rightarrow> Engine" where
  "trackConfirmations H C en =
     en\<lparr>indexed_events := map (track_event H C) (indexed_events en)\<rparr>"

text \<open>
  Modelled from the spec: the Reconciliation Service's \<open>reconcile(source, fromBlock)\<close>,
  whose code is not among the sources. It "refuses to operate at or below
  \<open>lastFinalizedBlockNumber\<close>"; "deletes all IndexedEvent rows with
  \<open>blockNumber \<ge> fromBlock\<close> that are not \<open>isFinalized\<close>"; "rolls
  \<open>lastScannedBlockNumber\<close> and \<open>lastProcessedBlockNumber\<close> back to \<open>fromBlock - 1\<close>
  (clamped at \<open>lastFinalizedBlockNumber\<close>)"; and "returns the source to \<open>idle\<close>".
  \<open>None\<close> is the refusal.
\<close>

definition reconcile :: "int \<Rightarrow> Engine \<Rightarrow> Engine option" where
  "reconcile fromBlock en =
     (let st = indexing_state en in
      if fromBlock \<le> lastFinalizedBlockNumber st then None
      else
        Some (en\<lparr>indexed_events :=
                   filter (\<lambda>e. \<not> (ie_blockNumber e \<ge> fromBlock \<and> \<not> isFinalized e))
                     (indexed_events en),
                 indexing_state :=
                   st\<lparr>lastScannedBlockNumber := max (fromBlock - 1) (lastFinalizedBlockNumber st),
                      lastProcessedBlockNumber := max (fromBlock - 1) (lastFinalizedBlockNumber st),
                      source_status := idle\<rparr>\<rparr>))"

text \<open>
  Modelled from the spec: the operations the engine performs on the store (persist,
  confirmation tracking, the three marks, reconcile), as a datatype, and the effect of
  one of them on the state; a refused reconciliation leaves the state as it is.
\<close>

datatype StoreOp =
    Persist ObservedLog
  | TrackConfirmations int int
  | MarkFinalized nat
  | MarkProcessed nat int
  | RecordProcessingFailure nat string
  | Reconcile int

fun apply_op :: "StoreOp \<Rightarrow> Engine \<Rightarrow> Engine" where
  "apply_op (Persist l) en = snd (persist l en)"
| "apply_op (TrackConfirmations H C) en = trackConfirmations H C en"
| "apply_op (MarkFinalized i) en = markFinalized i en"
| "apply_op (MarkProcessed i ts) en = markProcessed i ts en"
| "apply_op (RecordProcessingFailure i m) en = recordProcessingFailure i m en"
| "apply_op (Reconcile b) en = (case reconcile b en of None \<Rightarrow> en | Some en' \<Rightarrow> en')"

text \<open>The engine with an empty store, and a run of operations, one after the other.\<close>

definition empty_engine :: "IndexingState \<Rightarrow> Engine" where
  "empty_engine st = \<lparr>indexed_events = [], indexing_state = st, next_event_id = 0\<rparr>"

definition run :: "StoreOp list \<Rightarrow> Engine \<Rightarrow> Engine" where
  "run ops en = fold apply_op ops en"

subsection \<open>Example inputs\<close>

definition log_100 :: ObservedLog where
  "log_100 =
     \<lparr>ol_eventType = ''Transfer'', ol_contractAddress = ''0xC0'', ol_transactionHash = ''0xabc'',
      ol_blockNumber = 100, ol_logIndex = 2, ol_chainId = 1, ol_eventData = ''{}'',
      ol_parsedData = ''{}''\<rparr>"

definition fresh_state :: IndexingState where
  "fresh_state =
     \<lparr>lastProcessedBlockNumber = 0, lastScannedBlockNumber = 0, lastFinalizedBlockNumber = 0,
      source_status = idle\<rparr>"

section \<open>Numbers: rounding to a double\<close>

lemma two_powi_pos [simp]: "0 < (2::rat) powi k"
  by simp

lemma two_powi_nat: "0 \<le> k \<Longrightarrow> (2::rat) powi k = of_int (2 ^ nat k)"
  by (simp add: power_int_def)

lemma two_powi_le: "j \<le> k \<Longrightarrow> (2::rat) powi j \<le> 2 powi k"
  by (rule power_int_increasing) simp_all

lemma two_powi_less: "j < k \<Longrightarrow> (2::rat) powi j < 2 powi k"
  by (rule power_int_strict_increasing) simp_all

lemma two_powi_less_cancel: "(2::rat) powi j < 2 powi k \<Longrightarrow> j < k"
proof (rule ccontr)
  assume a: "(2::rat) powi j < 2 powi k" and "\<not> j < k"
  then have "k \<le> j" by simp
  from two_powi_le [OF this] a show False by simp
qed

lemma two_powi_add: "(2::rat) powi (j + k) = 2 powi j * 2 powi k"
  by (rule power_int_add) simp

lemma two_powi_diff: "(2::rat) powi (j - k) = 2 powi j / 2 powi k"
  by (rule power_int_diff) simp

lemma ilog2_bounds:
  assumes "0 < x"
  shows "2 powi ilog2 x \<le> x" and "x < 2 powi (ilog2 x + 1)"
proof -
  have "2 powi ilog2 x \<le> x \<and> x < 2 powi (ilog2 x + 1)"
  proof (cases "1 \<le> x")
    case True
    define n where "n = \<lfloor>x\<rfloor>"
    have n: "0 < n" using True by (simp add: n_def)
    define b where "b = bitlen n"
    have b1: "1 \<le> b" using n by (simp add: b_def bitlen_alt_def)
    have bb: "2 ^ nat (b - 1) \<le> n" "n < 2 ^ nat b"
      using bitlen_bounds [OF n] by (simp_all add: b_def)
    have il: "ilog2 x = b - 1" using True by (simp add: ilog2_def n_def b_def)
    have "(2::rat) powi (b - 1) = of_int (2 ^ nat (b - 1))"
      using b1 by (intro two_powi_nat) simp
    also have "\<dots> \<le> of_int n" using bb(1) by (simp only: of_int_le_iff)
    also have "\<dots> \<le> x" by (simp add: n_def)
    finally have lo: "2 powi (b - 1) \<le> x" .
    have "n + 1 \<le> 2 ^ nat b" using bb(2) by simp
    then have "(of_int (n + 1) :: rat) \<le> of_int (2 ^ nat b)" by (simp only: of_int_le_iff)
    moreover have "x < of_int (n + 1)" using floor_correct [of x] by (simp add: n_def)
    moreover have "(2::rat) powi b = of_int (2 ^ nat b)" using b1 by (intro two_powi_nat) simp
    ultimately have hi: "x < 2 powi b" by simp
    show ?thesis using lo hi by (simp add: il)
  next
    case False
    define y where "y = 1 / x"
    have y1: "1 < y" using False assms by (simp add: y_def)
    define m where "m = \<lceil>y\<rceil> - 1"
    have m: "0 < m" using y1 by (simp add: m_def less_ceiling_iff)
    define b where "b = bitlen m"
    have b1: "1 \<le> b" using m by (simp add: b_def bitlen_alt_def)
    have bb: "2 ^ nat (b - 1) \<le> m" "m < 2 ^ nat b"
      using bitlen_bounds [OF m] by (simp_all add: b_def)
    have il: "ilog2 x = - b" using False by (simp add: ilog2_def m_def b_def y_def)
    have my: "of_int m < y" "y \<le> of_int (m + 1)"
      using ceiling_correct [of y] by (simp_all add: m_def)
    have "m + 1 \<le> 2 ^ nat b" using bb(2) by simp
    then have "(of_int (m + 1) :: rat) \<le> of_int (2 ^ nat b)" by (simp only: of_int_le_iff)
    moreover have pb: "(2::rat) powi b = of_int (2 ^ nat b)" using b1 by (intro two_powi_nat) simp
    ultimately have "y \<le> 2 powi b" using my(2) by simp
    then have "1 / 2 powi b \<le> 1 / y" using y1 by (intro divide_left_mono) simp_all
    then have lo: "2 powi (- b) \<le> x" using assms by (simp add: y_def power_int_minus_divide)
    have "(2::rat) powi (b - 1) = of_int (2 ^ nat (b - 1))"
      using b1 by (intro two_powi_nat) simp
    also have "\<dots> \<le> of_int m" using bb(1) by (simp only: of_int_le_iff)
    also have "\<dots> < y" by (rule my(1))
    finally have "2 powi (b - 1) < y" .
    then have "1 / y < 1 / 2 powi (b - 1)" using y1 by (intro divide_strict_left_mono) simp_all
    then have hi: "x < 2 powi (- b + 1)"
      using assms power_int_minus_divide [of "2::rat" "b - 1"] by (simp add: y_def)
    show ?thesis using lo hi by (simp add: il)
  qed
  then show "2 powi ilog2 x \<le> x" and "x < 2 powi (ilog2 x + 1)" by simp_all
qed

lemma ilog2_unique:
  assumes "2 powi k \<le> x" and "x < 2 powi (k + 1)"
  shows "ilog2 x = k"
proof -
  have x: "0 < x" using assms(1) two_powi_pos [of k] by linarith
  note b = ilog2_bounds [OF x]
  have "(2::rat) powi k < 2 powi (ilog2 x + 1)" using assms(1) b(2) by linarith
  then have 1: "k < ilog2 x + 1" by (rule two_powi_less_cancel)
  have "(2::rat) powi ilog2 x < 2 powi (k + 1)" using assms(2) b(1) by linarith
  then have 2: "ilog2 x < k + 1" by (rule two_powi_less_cancel)
  from 1 2 show ?thesis by simp
qed

lemma ilog2_mono:
  assumes "0 < x" and "x \<le> y"
  shows "ilog2 x \<le> ilog2 y"
proof -
  have y: "0 < y" using assms by simp
  have "(2::rat) powi ilog2 x < 2 powi (ilog2 y + 1)"
    using ilog2_bounds(1) [OF assms(1)] ilog2_bounds(2) [OF y] assms(2) by linarith
  then have "ilog2 x < ilog2 y + 1" by (rule two_powi_less_cancel)
  then show ?thesis by simp
qed

lemma rne_cases:
  "rne y = \<lfloor>y\<rfloor> \<or> rne y = \<lfloor>y\<rfloor> + 1"
  by (simp add: rne_def Let_def)

lemma rne_close: "\<bar>of_int (rne y) - y\<bar> \<le> 1 / 2"
proof -
  have "of_int \<lfloor>y\<rfloor> \<le> y" "y < of_int \<lfloor>y\<rfloor> + 1" by linarith+
  then show ?thesis by (auto simp add: rne_def Let_def abs_le_iff)
qed

lemma rne_eqI: "\<bar>y - of_int n\<bar> < 1 / 2 \<Longrightarrow> rne y = n"
proof -
  assume a: "\<bar>y - of_int n\<bar> < 1 / 2"
  have "\<bar>of_int (rne y) - (of_int n :: rat)\<bar> < 1"
    using rne_close [of y] a by linarith
  then have "\<bar>(of_int (rne y - n) :: rat)\<bar> < 1" by simp
  then have "\<bar>rne y - n\<bar> < 1" by (simp only: of_int_abs [symmetric] of_int_less_1_iff)
  then show ?thesis by simp
qed

lemma rne_of_int [simp]: "rne (of_int n) = n"
  by (rule rne_eqI) simp

lemma rne_tie: "y = of_int n + 1 / 2 \<Longrightarrow> rne y = (if even n then n else n + 1)"
proof -
  assume y: "y = of_int n + 1 / 2"
  have "\<lfloor>y\<rfloor> = n" unfolding y by (simp add: floor_eq_iff)
  then show ?thesis by (simp add: rne_def Let_def y)
qed

lemma rne_ge_int: "of_int n \<le> y \<Longrightarrow> n \<le> rne y"
proof -
  assume "of_int n \<le> y"
  then have "n \<le> \<lfloor>y\<rfloor>" by (simp add: le_floor_iff)
  then show ?thesis using rne_cases [of y] by linarith
qed

lemma rne_le_int: "y \<le> of_int n \<Longrightarrow> rne y \<le> n"
proof (cases "y = of_int n")
  case True
  then show ?thesis by simp
next
  case False
  assume "y \<le> of_int n"
  with False have "y < of_int n" by simp
  then have "\<lfloor>y\<rfloor> < n" by (simp add: floor_less_iff)
  then show ?thesis using rne_cases [of y] by linarith
qed

lemma rne_mono:
  assumes "x \<le> y"
  shows "rne x \<le> rne y"
proof (cases "\<lfloor>x\<rfloor> = \<lfloor>y\<rfloor>")
  case True
  then show ?thesis using assms by (auto simp add: rne_def Let_def)
next
  case False
  have "\<lfloor>x\<rfloor> \<le> \<lfloor>y\<rfloor>" using assms by (rule floor_mono)
  with False have "\<lfloor>x\<rfloor> + 1 \<le> \<lfloor>y\<rfloor>" by simp
  then show ?thesis using rne_cases [of x] rne_cases [of y] by linarith
qed

lemma rne_minus: "rne (- y) = - rne y"
proof (cases "y = of_int \<lfloor>y\<rfloor>")
  case True
  then obtain n where "y = of_int n" ..
  then have "- y = of_int (- n)" by simp
  then show ?thesis using \<open>y = of_int n\<close> by (simp only: rne_of_int)
next
  case False
  define n where "n = \<lfloor>y\<rfloor>"
  have "of_int n \<le> y" "y < of_int n + 1" using floor_correct [of y] by (simp_all add: n_def)
  with False have ny: "of_int n < y" "y < of_int n + 1" unfolding n_def by linarith+
  have fl: "\<lfloor>- y\<rfloor> = - n - 1" using ny by (simp add: floor_eq_iff)
  have "even (- n - 1) \<longleftrightarrow> odd n" by simp
  then show ?thesis
    using ny unfolding rne_def Let_def fl n_def [symmetric]
    by (auto simp add: field_simps)
qed

lemma ulp_exponent_minus [simp]: "ulp_exponent (- x) = ulp_exponent x"
  by (simp add: ulp_exponent_def)

lemma rd_0 [simp]: "rd 0 = 0"
  by (simp add: rd_def)

lemma rd_minus: "rd (- x) = - rd x"
  by (simp add: rd_def rne_minus)

lemma scaled_bounds:
  assumes "0 < x"
  shows "x / 2 powi ulp_exponent x < 2 ^ 53"
    and "ulp_exponent x = ilog2 x - 52 \<Longrightarrow> 2 ^ 52 \<le> x / 2 powi ulp_exponent x"
proof -
  let ?e = "ulp_exponent x"
  have "ilog2 x + 1 \<le> ?e + 53" using assms by (simp add: ulp_exponent_def)
  then have "(2::rat) powi (ilog2 x + 1) \<le> 2 powi (?e + 53)" by (rule two_powi_le)
  then have "x < 2 powi (?e + 53)" using ilog2_bounds(2) [OF assms] by linarith
  then have "x < 2 powi ?e * 2 ^ 53" by (simp add: two_powi_add)
  then show "x / 2 powi ?e < 2 ^ 53" by (simp add: pos_divide_less_eq mult.commute)
  assume e: "?e = ilog2 x - 52"
  have "(2::rat) powi (?e + 52) \<le> x" using ilog2_bounds(1) [OF assms] by (simp add: e)
  then have "2 powi ?e * 2 ^ 52 \<le> x" by (simp add: two_powi_add)
  then show "2 ^ 52 \<le> x / 2 powi ?e" by (simp add: pos_le_divide_eq mult.commute)
qed

lemma rd_nonneg: "0 \<le> x \<Longrightarrow> 0 \<le> rd x"
proof (cases "x = 0")
  case False
  assume "0 \<le> x"
  then have "0 \<le> x / 2 powi ulp_exponent x" by simp
  then have "(of_int 0 :: rat) \<le> x / 2 powi ulp_exponent x" by simp
  then have "0 \<le> rne (x / 2 powi ulp_exponent x)" by (rule rne_ge_int)
  then show ?thesis by (simp add: rd_def)
qed simp

lemma rd_pos_mono:
  assumes "0 < x" and "x \<le> y"
  shows "rd x \<le> rd y"
proof -
  have y: "0 < y" using assms by simp
  let ?ex = "ulp_exponent x" and ?ey = "ulp_exponent y"
  have il: "ilog2 x \<le> ilog2 y" using assms by (rule ilog2_mono)
  have ex: "?ex = max (ilog2 x - 52) (- 1074)" and ey: "?ey = max (ilog2 y - 52) (- 1074)"
    using assms y by (simp_all add: ulp_exponent_def)
  have le: "?ex \<le> ?ey" using il by (simp add: ex ey)
  show ?thesis
  proof (cases "?ex = ?ey")
    case True
    have "x / 2 powi ?ey \<le> y / 2 powi ?ey" using assms(2) by (simp add: divide_right_mono)
    then have "rne (x / 2 powi ?ey) \<le> rne (y / 2 powi ?ey)" by (rule rne_mono)
    then have "(of_int (rne (x / 2 powi ?ey)) :: rat) \<le> of_int (rne (y / 2 powi ?ey))"
      by (simp only: of_int_le_iff)
    then have "(of_int (rne (x / 2 powi ?ey)) :: rat) * 2 powi ?ey
        \<le> of_int (rne (y / 2 powi ?ey)) * 2 powi ?ey"
      by (intro mult_right_mono) simp_all
    then show ?thesis using assms y by (simp add: rd_def True)
  next
    case False
    with le have lt: "?ex + 1 \<le> ?ey" by simp
    then have eyn: "?ey = ilog2 y - 52" using ex ey by linarith
    have "x / 2 powi ?ex \<le> of_int (2 ^ 53)" using scaled_bounds(1) [OF assms(1)] by simp
    then have "rne (x / 2 powi ?ex) \<le> 2 ^ 53" by (rule rne_le_int)
    then have "(of_int (rne (x / 2 powi ?ex)) :: rat) \<le> of_int (2 ^ 53)"
      by (simp only: of_int_le_iff)
    then have "(of_int (rne (x / 2 powi ?ex)) :: rat) * 2 powi ?ex \<le> of_int (2 ^ 53) * 2 powi ?ex"
      by (intro mult_right_mono) simp_all
    then have 1: "rd x \<le> 2 powi (?ex + 53)" using assms by (simp add: rd_def two_powi_add mult.commute)
    have "?ex + 53 \<le> ?ey + 52" using lt by simp
    then have 2: "(2::rat) powi (?ex + 53) \<le> 2 powi (?ey + 52)" by (rule two_powi_le)
    have "of_int (2 ^ 52) \<le> y / 2 powi ?ey" using scaled_bounds(2) [OF y eyn] by simp
    then have "2 ^ 52 \<le> rne (y / 2 powi ?ey)" by (rule rne_ge_int)
    then have "(of_int (2 ^ 52) :: rat) \<le> of_int (rne (y / 2 powi ?ey))"
      by (simp only: of_int_le_iff)
    then have "(of_int (2 ^ 52) :: rat) * 2 powi ?ey \<le> of_int (rne (y / 2 powi ?ey)) * 2 powi ?ey"
      by (intro mult_right_mono) simp_all
    then have 3: "2 powi (?ey + 52) \<le> rd y" using y by (simp add: rd_def two_powi_add mult.commute)
    from 1 2 3 show ?thesis by linarith
  qed
qed

lemma rd_mono:
  assumes "x \<le> y"
  shows "rd x \<le> rd y"
proof -
  consider "0 < x" | "x \<le> 0" "0 \<le> y" | "y < 0" by linarith
  then show ?thesis
  proof cases
    case 1
    then show ?thesis using assms by (rule rd_pos_mono)
  next
    case 2
    have "0 \<le> rd (- x)" using 2(1) by (intro rd_nonneg) simp
    then have "rd x \<le> 0" by (simp add: rd_minus)
    moreover have "0 \<le> rd y" using 2(2) by (rule rd_nonneg)
    ultimately show ?thesis by simp
  next
    case 3
    have "rd (- y) \<le> rd (- x)" using 3 assms by (intro rd_pos_mono) simp_all
    then show ?thesis by (simp add: rd_minus)
  qed
qed

lemma rd_grid_pos:
  assumes "0 < n" and "n < 2 ^ 53" and "- 1074 \<le> e"
  shows "rd (of_int n * 2 powi e) = of_int n * 2 powi e"
proof -
  define X :: rat where "X = of_int n * 2 powi e"
  define u where "u = ulp_exponent X"
  have x: "0 < X" using assms(1) by (simp add: X_def)
  have "(of_int n :: rat) < of_int (2 ^ 53)" using assms(2) by (simp only: of_int_less_iff)
  then have "X < of_int (2 ^ 53) * 2 powi e" unfolding X_def by (intro mult_strict_right_mono) simp_all
  then have "X < 2 powi (e + 53)" by (simp add: two_powi_add mult.commute)
  then have "2 powi ilog2 X < (2::rat) powi (e + 53)" using ilog2_bounds(1) [OF x] by linarith
  then have "ilog2 X < e + 53" by (rule two_powi_less_cancel)
  then have le: "u \<le> e" using x assms(3) by (simp add: ulp_exponent_def u_def)
  define d where "d = nat (e - u)"
  have "(2::rat) powi e = 2 powi (u + int d)" using le by (simp add: d_def)
  also have "\<dots> = 2 powi u * 2 ^ d" by (simp add: two_powi_add)
  finally have e: "(2::rat) powi e = 2 powi u * 2 ^ d" .
  have X: "X = of_int (n * 2 ^ d) * 2 powi u" by (simp add: X_def e)
  then have "X / 2 powi u = of_int (n * 2 ^ d)" by simp
  then have "rne (X / 2 powi u) = n * 2 ^ d" by (simp only: rne_of_int)
  then have "rd X = of_int (n * 2 ^ d) * 2 powi u" using x by (simp add: rd_def u_def)
  then have "rd X = X" by (simp only: X [symmetric])
  then show ?thesis by (simp only: X_def)
qed

lemma rd_grid:
  assumes "\<bar>n\<bar> \<le> 2 ^ 53" and "- 1074 \<le> e"
  shows "rd (of_int n * 2 powi e) = of_int n * 2 powi e"
proof -
  have pos: "rd (of_int m * 2 powi e) = of_int m * 2 powi e" if "0 < m" "m \<le> 2 ^ 53" for m
  proof (cases "m = 2 ^ 53")
    case True
    have "rd (of_int 1 * 2 powi (e + 53)) = of_int 1 * 2 powi (e + 53)"
      using assms(2) by (intro rd_grid_pos) simp_all
    then show ?thesis unfolding True by (simp add: two_powi_add mult.commute)
  next
    case False
    with that show ?thesis using assms(2) by (intro rd_grid_pos) simp_all
  qed
  consider "0 < n" | "n = 0" | "n < 0" by linarith
  then show ?thesis
  proof cases
    case 1
    then show ?thesis using assms(1) by (intro pos) simp_all
  next
    case 2
    then show ?thesis by simp
  next
    case 3
    then have "rd (of_int (- n) * 2 powi e) = of_int (- n) * 2 powi e"
      using assms(1) by (intro pos) simp_all
    then show ?thesis using rd_minus [of "of_int n * 2 powi e"] by simp
  qed
qed

lemma rd_on_grid:
  "\<exists>n e. rd x = of_int n * 2 powi e \<and> \<bar>n\<bar> \<le> 2 ^ 53 \<and> - 1074 \<le> e"
proof -
  have pos: "\<exists>n e. rd x = of_int n * 2 powi e \<and> \<bar>n\<bar> \<le> 2 ^ 53 \<and> - 1074 \<le> e" if "0 < x" for x
  proof -
    let ?e = "ulp_exponent x" and ?n = "rne (x / 2 powi ulp_exponent x)"
    have "x / 2 powi ?e \<le> of_int (2 ^ 53)" using scaled_bounds(1) [OF that] by simp
    then have 1: "?n \<le> 2 ^ 53" by (rule rne_le_int)
    have "(of_int 0 :: rat) \<le> x / 2 powi ?e" using that by simp
    then have 2: "0 \<le> ?n" by (rule rne_ge_int)
    have 3: "- 1074 \<le> ?e" by (simp add: ulp_exponent_def)
    have "rd x = of_int ?n * 2 powi ?e" using that by (simp add: rd_def)
    with 1 2 3 show ?thesis by (intro exI [of _ ?n] exI [of _ ?e]) simp
  qed
  consider "0 < x" | "x = 0" | "x < 0" by linarith
  then show ?thesis
  proof cases
    case 1
    then show ?thesis by (rule pos)
  next
    case 2
    then show ?thesis by (intro exI [of _ 0] exI [of _ 0]) simp
  next
    case 3
    then have "0 < - x" by simp
    from pos [OF this] obtain n e where
      "rd (- x) = of_int n * 2 powi e" "\<bar>n\<bar> \<le> 2 ^ 53" "- 1074 \<le> e" by auto
    then show ?thesis by (intro exI [of _ "- n"] exI [of _ e]) (simp add: rd_minus)
  qed
qed

lemma rd_rd [simp]: "rd (rd x) = rd x"
proof -
  from rd_on_grid [of x] obtain n e where
    "rd x = of_int n * 2 powi e" "\<bar>n\<bar> \<le> 2 ^ 53" "- 1074 \<le> e" by auto
  then show ?thesis using rd_grid [of n e] by simp
qed

lemma rd_of_int: "\<bar>n\<bar> \<le> 2 ^ 53 \<Longrightarrow> rd (of_int n) = of_int n"
  using rd_grid [of n 0] by simp

lemma rd_eqI:
  assumes "2 powi k \<le> x" and "x < 2 powi (k + 1)" and "e = max (k - 52) (- 1074)"
    and "\<bar>x / 2 powi e - of_int n\<bar> < 1 / 2"
  shows "rd x = of_int n * 2 powi e"
proof -
  have x: "0 < x" using assms(1) two_powi_pos [of k] by linarith
  have "ilog2 x = k" using assms(1,2) by (rule ilog2_unique)
  then have "ulp_exponent x = e" using x by (simp add: ulp_exponent_def assms(3))
  then show ?thesis using x rne_eqI [OF assms(4)] by (simp add: rd_def)
qed

lemma rd_tieI:
  assumes "2 powi k \<le> x" and "x < 2 powi (k + 1)" and "e = max (k - 52) (- 1074)"
    and "x / 2 powi e = of_int n + 1 / 2"
  shows "rd x = of_int (if even n then n else n + 1) * 2 powi e"
proof -
  have x: "0 < x" using assms(1) two_powi_pos [of k] by linarith
  have "ilog2 x = k" using assms(1,2) by (rule ilog2_unique)
  then have "ulp_exponent x = e" using x by (simp add: ulp_exponent_def assms(3))
  then show ?thesis using x rne_tie [OF assms(4)] by (simp add: rd_def)
qed

lemma rd_eval:
  assumes "2 powi k \<le> x" and "x < 2 powi (k + 1)"
    and "\<bar>x / 2 powi max (k - 52) (- 1074) - of_int n\<bar> < 1 / 2"
    and "v = of_int n * 2 powi max (k - 52) (- 1074)"
  shows "rd x = v"
  using rd_eqI [OF assms(1,2) refl assms(3)] assms(4) by simp

lemma rd_eval_tie:
  assumes "2 powi k \<le> x" and "x < 2 powi (k + 1)"
    and "x / 2 powi max (k - 52) (- 1074) = of_int n + 1 / 2"
    and "v = of_int (if even n then n else n + 1) * 2 powi max (k - 52) (- 1074)"
  shows "rd x = v"
  using rd_tieI [OF assms(1,2) refl assms(3)] assms(4) by simp

lemma fl_eval:
  assumes "2 powi k \<le> x" and "x < 2 powi (k + 1)"
    and "\<bar>x / 2 powi max (k - 52) (- 1074) - of_int n\<bar> < 1 / 2"
    and "v = of_int n * 2 powi max (k - 52) (- 1074)"
    and "\<bar>v\<bar> < overflow_threshold"
  shows "fl x = Num v"
  using rd_eval [OF assms(1-4)] assms(5) by (simp add: fl_def)

lemma fl_eval_tie:
  assumes "2 powi k \<le> x" and "x < 2 powi (k + 1)"
    and "x / 2 powi max (k - 52) (- 1074) = of_int n + 1 / 2"
    and "v = of_int (if even n then n else n + 1) * 2 powi max (k - 52) (- 1074)"
    and "\<bar>v\<bar> < overflow_threshold"
  shows "fl x = Num v"
  using rd_eval_tie [OF assms(1-4)] assms(5) by (simp add: fl_def)

lemma fl_of_int: "\<bar>n\<bar> \<le> 2 ^ 53 \<Longrightarrow> fl (of_int n) = Num (of_int n)"
proof -
  assume a: "\<bar>n\<bar> \<le> 2 ^ 53"
  then have "(of_int \<bar>n\<bar> :: rat) \<le> of_int (2 ^ 53)" by (simp only: of_int_le_iff)
  moreover have "(of_int (2 ^ 53) :: rat) < overflow_threshold"
    by (simp add: overflow_threshold_def)
  ultimately have "\<bar>of_int n :: rat\<bar> < overflow_threshold" by simp
  then show ?thesis using rd_of_int [OF a] by (simp add: fl_def)
qed

lemma fl_numeral: "(numeral w :: int) \<le> 2 ^ 53 \<Longrightarrow> fl (numeral w) = Num (numeral w)"
  using fl_of_int [of "numeral w"] by simp

lemma fl_0 [simp]: "fl 0 = Num 0"
  by (simp add: fl_def overflow_threshold_def)

lemma fl_1 [simp]: "fl 1 = Num 1"
  using fl_of_int [of 1] by simp

lemma is_double_grid:
  assumes "\<bar>n\<bar> \<le> 2 ^ 53" and "- 1074 \<le> e" and "e \<le> 970"
  shows "is_double (of_int n * 2 powi e)"
proof -
  have "(of_int \<bar>n\<bar> :: rat) \<le> of_int (2 ^ 53)" using assms(1) by (simp only: of_int_le_iff)
  then have "(of_int \<bar>n\<bar> :: rat) * 2 powi e \<le> of_int (2 ^ 53) * 2 powi e"
    by (intro mult_right_mono) simp_all
  also have "\<dots> = 2 powi (e + 53)" by (simp add: two_powi_add)
  also have "\<dots> \<le> 2 powi 1023" using assms(3) by (intro two_powi_le) simp
  also have "\<dots> < overflow_threshold" unfolding overflow_threshold_def by (rule two_powi_less) simp
  finally have "\<bar>of_int n * 2 powi e :: rat\<bar> < overflow_threshold" by (simp add: abs_mult)
  then show ?thesis using rd_grid [OF assms(1,2)] by (simp add: is_double_def fl_def)
qed

lemma fl_finite: "\<bar>rd x\<bar> < overflow_threshold \<Longrightarrow> fl x = Num (rd x)"
  by (simp add: fl_def)

lemma fl_Num_iff: "fl x = Num y \<longleftrightarrow> y = rd x \<and> \<bar>rd x\<bar> < overflow_threshold"
  by (auto simp add: fl_def)

lemma is_double_iff: "is_double a \<longleftrightarrow> rd a = a \<and> \<bar>a\<bar> < overflow_threshold"
  by (auto simp add: is_double_def fl_Num_iff)

lemma rd_nonpos: "x \<le> 0 \<Longrightarrow> rd x \<le> 0"
  using rd_nonneg [of "- x"] by (simp add: rd_minus)

lemma overflow_threshold_pos [simp]: "0 < overflow_threshold"
  by (simp add: overflow_threshold_def)

lemma fl_rd [simp]: "fl (rd x) = fl x"
proof (cases "overflow_threshold \<le> \<bar>rd x\<bar>")
  case True
  then have ne: "rd x \<noteq> 0" using overflow_threshold_pos by linarith
  have "0 < rd x \<longleftrightarrow> 0 < x"
    using ne rd_nonneg [of x] rd_nonpos [of x] by (cases "0 < x") auto
  then show ?thesis using True by (simp add: fl_def)
next
  case False
  then show ?thesis by (simp add: fl_def)
qed

lemma rd_abs: "rd \<bar>x\<bar> = \<bar>rd x\<bar>"
proof (cases "0 \<le> x")
  case True
  then show ?thesis using rd_nonneg [of x] by simp
next
  case False
  then show ?thesis using rd_nonpos [of x] by (simp add: rd_minus)
qed

lemma rd_numeral [simp]: "numeral w \<le> (2::int) ^ 53 \<Longrightarrow> rd (numeral w) = numeral w"
  using rd_of_int [of "numeral w"] by simp

lemma rd_1 [simp]: "rd 1 = 1"
  using rd_of_int [of 1] by simp

lemma rd_half [simp]: "rd (1 / 2) = 1 / 2"
  using rd_grid [of 1 "- 1"] by simp

lemma rd_bounded:
  assumes "rd b = b" and "\<bar>x\<bar> \<le> b"
  shows "\<bar>rd x\<bar> \<le> b"
proof -
  have "rd \<bar>x\<bar> \<le> rd b" using assms(2) by (rule rd_mono)
  then show ?thesis by (simp add: rd_abs assms(1))
qed

lemma rne_lt_half: "y < of_int n + 1 / 2 \<Longrightarrow> rne y \<le> n"
proof -
  assume "y < of_int n + 1 / 2"
  moreover have "of_int (rne y) - y \<le> 1 / 2" using rne_close [of y] by (simp only: abs_le_iff)
  ultimately have "of_int (rne y) < (of_int (n + 1) :: rat)" by simp
  then have "rne y < n + 1" by (simp only: of_int_less_iff)
  then show ?thesis by simp
qed

lemma rd_error: "\<bar>rd x - x\<bar> \<le> 2 powi ulp_exponent x / 2"
proof (cases "x = 0")
  case False
  let ?e = "ulp_exponent x"
  have "rd x - x = (of_int (rne (x / 2 powi ?e)) - x / 2 powi ?e) * 2 powi ?e"
    using False by (simp add: rd_def algebra_simps)
  then have "\<bar>rd x - x\<bar> = \<bar>of_int (rne (x / 2 powi ?e)) - x / 2 powi ?e\<bar> * 2 powi ?e"
    by (simp add: abs_mult)
  also have "\<dots> \<le> 1 / 2 * 2 powi ?e"
    by (intro mult_right_mono rne_close) simp
  finally show ?thesis by simp
qed simp

lemma overflow_threshold_gt:
  "1 < overflow_threshold" "100 < overflow_threshold" "64 < overflow_threshold"
  by (simp_all add: overflow_threshold_def)

lemma rd_lt_100_iff: "rd x < 100 \<longleftrightarrow> x < 100 - 1 / 2 ^ 47"
proof
  assume a: "rd x < 100"
  show "x < 100 - 1 / 2 ^ 47"
  proof (rule ccontr)
    assume "\<not> x < 100 - 1 / 2 ^ 47"
    then have "rd (100 - 1 / 2 ^ 47) \<le> rd x" by (intro rd_mono) simp
    moreover have "rd (100 - 1 / 2 ^ 47) = 100"
      using rd_tieI [of 6 "100 - 1 / 2 ^ 47" "- 46" "7036874417766399"] by simp
    ultimately show False using a by simp
  qed
next
  assume a: "x < 100 - 1 / 2 ^ 47"
  show "rd x < 100"
  proof (cases "x < 64")
    case True
    then have "rd x \<le> rd 64" by (intro rd_mono) simp
    then show ?thesis by simp
  next
    case False
    then have x: "0 < x" by simp
    have "ilog2 x = 6" using False a by (intro ilog2_unique) simp_all
    then have e: "ulp_exponent x = - 46" using x by (simp add: ulp_exponent_def)
    have "x / 2 powi (- 46) < of_int 7036874417766399 + 1 / 2" using a by simp
    then have "rne (x / 2 powi (- 46)) \<le> 7036874417766399" by (rule rne_lt_half)
    then have "(of_int (rne (x / 2 powi (- 46))) :: rat) \<le> of_int 7036874417766399"
      by (simp only: of_int_le_iff)
    then have "(of_int (rne (x / 2 powi (- 46))) :: rat) * 2 powi (- 46)
        \<le> of_int 7036874417766399 * 2 powi (- 46)"
      by (intro mult_right_mono) simp_all
    then have "rd x \<le> of_int 7036874417766399 * 2 powi (- 46)" using x by (simp add: rd_def e)
    then show ?thesis by simp
  qed
qed

lemma Number_toFixed4_unit:
  assumes "0 \<le> m" and "m \<le> 1"
  shows "Number_toFixed4 (Num m) = Num (rd (of_int \<lfloor>m * 10000 + 1 / 2\<rfloor> / 10000))"
    and "0 \<le> \<lfloor>m * 10000 + 1 / 2\<rfloor>" and "\<lfloor>m * 10000 + 1 / 2\<rfloor> \<le> 10000"
    and "0 \<le> rd (of_int \<lfloor>m * 10000 + 1 / 2\<rfloor> / 10000)"
    and "rd (of_int \<lfloor>m * 10000 + 1 / 2\<rfloor> / 10000) \<le> 1"
    and "0 < rd (of_int \<lfloor>m * 10000 + 1 / 2\<rfloor> / 10000) \<longleftrightarrow> 1 / 20000 \<le> m"
    and "\<bar>rd (of_int \<lfloor>m * 10000 + 1 / 2\<rfloor> / 10000) - of_int \<lfloor>m * 10000 + 1 / 2\<rfloor> / 10000\<bar>
           \<le> 1 / 2 ^ 54"
proof -
  define n where "n = \<lfloor>m * 10000 + 1 / 2\<rfloor>"
  define x :: rat where "x = of_int n / 10000"
  have n0: "0 \<le> n" unfolding n_def using assms(1) by (simp add: le_floor_iff)
  have "m * 10000 + 1 / 2 < of_int 10001" using assms(2) by simp
  then have "n < 10001" unfolding n_def by (simp only: floor_less_iff)
  then have n1: "n \<le> 10000" by simp
  have x0: "0 \<le> x" using n0 by (simp add: x_def)
  have "(of_int n :: rat) \<le> of_int 10000" using n1 by (simp only: of_int_le_iff)
  then have x1: "x \<le> 1" by (simp add: x_def)
  have r0: "0 \<le> rd x" using x0 by (rule rd_nonneg)
  have "rd x \<le> rd 1" using x1 by (rule rd_mono)
  then have r1: "rd x \<le> 1" by simp
  have fin: "fl x = Num (rd x)"
    using r0 r1 overflow_threshold_gt(1) by (intro fl_finite) linarith
  have "\<not> 10 ^ 21 \<le> \<bar>m\<bar>" using assms by simp
  then have tf: "Number_toFixed4 (Num m) = Num (rd x)"
    using assms(1) fin by (simp add: x_def n_def)
  have pos: "0 < rd x \<longleftrightarrow> 1 / 20000 \<le> m"
  proof
    assume "0 < rd x"
    then have "x \<noteq> 0" by auto
    then have "1 \<le> n" using n0 by (simp add: x_def)
    then have "of_int 1 \<le> m * 10000 + 1 / 2" unfolding n_def by (simp only: le_floor_iff)
    then show "1 / 20000 \<le> m" by simp
  next
    assume "1 / 20000 \<le> m"
    then have "of_int 1 \<le> m * 10000 + 1 / 2" by simp
    then have "1 \<le> n" unfolding n_def by (simp only: le_floor_iff)
    then have "(of_int 1 :: rat) \<le> of_int n" by (simp only: of_int_le_iff)
    then have "2 powi (- 14) \<le> x" by (simp add: x_def)
    then have "rd (2 powi (- 14)) \<le> rd x" by (rule rd_mono)
    moreover have "rd (2 powi (- 14)) = 2 powi (- 14)" using rd_grid [of 1 "- 14"] by simp
    ultimately show "0 < rd x" by simp
  qed
  have err: "\<bar>rd x - x\<bar> \<le> 1 / 2 ^ 54"
  proof (cases "x = 0 \<or> x = 1")
    case True
    then show ?thesis by auto
  next
    case False
    then have x: "0 < x" "x < 1" using x0 x1 by simp_all
    have "2 powi ilog2 x < (2::rat) powi 0" using ilog2_bounds(1) [OF x(1)] x(2) by simp
    then have "ilog2 x < 0" by (rule two_powi_less_cancel)
    then have "ulp_exponent x \<le> - 53" using x(1) by (simp add: ulp_exponent_def)
    then have "(2::rat) powi ulp_exponent x \<le> 2 powi (- 53)" by (rule two_powi_le)
    then show ?thesis using rd_error [of x] by simp
  qed
  show "Number_toFixed4 (Num m) = Num (rd (of_int \<lfloor>m * 10000 + 1 / 2\<rfloor> / 10000))"
    and "0 \<le> \<lfloor>m * 10000 + 1 / 2\<rfloor>" and "\<lfloor>m * 10000 + 1 / 2\<rfloor> \<le> 10000"
    and "0 \<le> rd (of_int \<lfloor>m * 10000 + 1 / 2\<rfloor> / 10000)"
    and "rd (of_int \<lfloor>m * 10000 + 1 / 2\<rfloor> / 10000) \<le> 1"
    and "0 < rd (of_int \<lfloor>m * 10000 + 1 / 2\<rfloor> / 10000) \<longleftrightarrow> 1 / 20000 \<le> m"
    and "\<bar>rd (of_int \<lfloor>m * 10000 + 1 / 2\<rfloor> / 10000) - of_int \<lfloor>m * 10000 + 1 / 2\<rfloor> / 10000\<bar>
           \<le> 1 / 2 ^ 54"
    using tf n0 n1 r0 r1 pos err unfolding x_def n_def by simp_all
qed

section \<open>Confidence score: results\<close>

lemma sub_nonneg_doubles:
  assumes "is_double t" and "is_double f" and "0 \<le> t" and "0 \<le> f"
  shows "js_sub (Num t) (Num f) = Num (rd (t - f))"
    and "\<bar>rd (t - f)\<bar> \<le> rd (t + f)"
    and "\<bar>rd (t - f)\<bar> < overflow_threshold"
proof -
  have m: "rd (max t f) = max t f" "max t f < overflow_threshold"
    using assms by (auto simp add: is_double_iff max_def)
  have "\<bar>t - f\<bar> \<le> max t f" using assms(3,4) by (simp add: max_def abs_if)
  then have "\<bar>rd (t - f)\<bar> \<le> max t f" using m(1) by (intro rd_bounded)
  then show fin: "\<bar>rd (t - f)\<bar> < overflow_threshold" using m(2) by linarith
  then show "js_sub (Num t) (Num f) = Num (rd (t - f))"
    by (simp add: js_sub_def fl_finite)
  have "\<bar>t - f\<bar> \<le> t + f" using assms(3,4) by (simp add: abs_if)
  then have "rd \<bar>t - f\<bar> \<le> rd (t + f)" by (rule rd_mono)
  then show "\<bar>rd (t - f)\<bar> \<le> rd (t + f)" by (simp add: rd_abs)
qed

lemma fl_nonneg:
  assumes "0 \<le> x"
  shows "fl x = (if overflow_threshold \<le> rd x then PosInf else Num (rd x))"
proof -
  have 0: "0 \<le> rd x" using assms by (rule rd_nonneg)
  show ?thesis
  proof (cases "overflow_threshold \<le> rd x")
    case True
    then have "rd x \<noteq> 0" using overflow_threshold_pos by linarith
    then have "x \<noteq> 0" by auto
    then have "0 < x" using assms by linarith
    then show ?thesis using True 0 by (simp add: fl_def)
  next
    case False
    then show ?thesis using 0 by (simp add: fl_def)
  qed
qed

lemma total_lt_iff:
  assumes "0 \<le> x"
  shows "js_lt (fl x) (Num 100) \<longleftrightarrow> x < 100 - 1 / 2 ^ 47"
proof -
  have "js_lt (fl x) (Num 100) \<longleftrightarrow> rd x < 100"
    using overflow_threshold_gt(2) by (simp add: fl_nonneg [OF assms])
  then show ?thesis by (simp only: rd_lt_100_iff)
qed

lemma computeConfidenceScore_None_iff:
  assumes "0 \<le> t" and "0 \<le> f"
  shows "computeConfidenceScore \<lparr>trueWeight = Num t, falseWeight = Num f\<rparr> = None
           \<longleftrightarrow> t + f < 100 - 1 / 2 ^ 47"
proof -
  have "0 \<le> t + f" using assms by simp
  from total_lt_iff [OF this] show ?thesis
    by (simp add: computeConfidenceScore_def MIN_REQUIRED_WEIGHT_def Let_def)
qed

lemma participation_one:
  assumes "0 \<le> t" and "0 \<le> f" and "100 - 1 / 2 ^ 47 \<le> t + f"
  shows "Math_min (js_div (fl (t + f)) (Num 100)) (Num 1) = Num 1"
proof -
  have tf: "0 \<le> t + f" using assms by simp
  have S: "100 \<le> rd (t + f)" using assms(3) rd_lt_100_iff [of "t + f"] by simp
  show ?thesis
  proof (cases "overflow_threshold \<le> rd (t + f)")
    case True
    then show ?thesis by (simp add: fl_nonneg [OF tf])
  next
    case False
    define S where "S = rd (t + f)"
    have S1: "100 \<le> S" "S < overflow_threshold" "rd S = S" using S False by (simp_all add: S_def)
    have "rd 1 \<le> rd (S / 100)" using S1(1) by (intro rd_mono) simp
    then have p1: "1 \<le> rd (S / 100)" by simp
    have "rd (S / 100) \<le> rd S" using S1(1) by (intro rd_mono) simp
    then have "\<bar>rd (S / 100)\<bar> < overflow_threshold" using p1 S1(2,3) by simp
    then have "fl (S / 100) = Num (rd (S / 100))" by (rule fl_finite)
    then show ?thesis
      using False p1 S1(1) by (simp add: fl_nonneg [OF tf] S_def [symmetric])
  qed
qed

lemma margin_unit:
  assumes "is_double t" and "is_double f" and "0 \<le> t" and "0 \<le> f"
    and "100 - 1 / 2 ^ 47 \<le> t + f"
  defines "m \<equiv> (if overflow_threshold \<le> rd (t + f) then 0
                   else rd (\<bar>rd (t - f)\<bar> / rd (t + f)))"
  shows "js_div (Num \<bar>rd (t - f)\<bar>) (fl (t + f)) = Num m"
    and "0 \<le> m" and "m \<le> 1" and "rd m = m"
proof -
  have tf: "0 \<le> t + f" using assms(3,4) by simp
  have S: "100 \<le> rd (t + f)" using assms(5) rd_lt_100_iff [of "t + f"] by simp
  note sub = sub_nonneg_doubles [OF assms(1-4)]
  have "js_div (Num \<bar>rd (t - f)\<bar>) (fl (t + f)) = Num m \<and> 0 \<le> m \<and> m \<le> 1 \<and> rd m = m"
  proof (cases "overflow_threshold \<le> rd (t + f)")
    case True
    then show ?thesis by (simp add: fl_nonneg [OF tf] m_def)
  next
    case False
    define S where "S = rd (t + f)"
    define d where "d = \<bar>rd (t - f)\<bar>"
    have S1: "100 \<le> S" using S by (simp add: S_def)
    have d: "0 \<le> d" "d \<le> S" using sub(2) by (simp_all add: d_def S_def)
    have q: "0 \<le> d / S" "d / S \<le> 1" using d S1 by simp_all
    have m0: "0 \<le> rd (d / S)" using q(1) by (rule rd_nonneg)
    have "rd (d / S) \<le> rd 1" using q(2) by (rule rd_mono)
    then have m1: "rd (d / S) \<le> 1" by simp
    have "\<bar>rd (d / S)\<bar> < overflow_threshold" using m0 m1 overflow_threshold_gt(1) by linarith
    then have "fl (d / S) = Num (rd (d / S))" by (rule fl_finite)
    then have "js_div (Num \<bar>rd (t - f)\<bar>) (fl (t + f)) = Num (rd (d / S))"
      using False S1
      by (simp add: fl_nonneg [OF tf] S_def [symmetric] d_def [symmetric])
    moreover have "m = rd (d / S)" using False by (simp add: m_def d_def S_def)
    ultimately show ?thesis using m0 m1 by simp
  qed
  then show "js_div (Num \<bar>rd (t - f)\<bar>) (fl (t + f)) = Num m"
    and "0 \<le> m" and "m \<le> 1" and "rd m = m" by simp_all
qed

lemma computeConfidenceScore_value:
  assumes "is_double t" and "is_double f" and "0 \<le> t" and "0 \<le> f"
    and "100 - 1 / 2 ^ 47 \<le> t + f" and "t \<noteq> f"
  shows "computeConfidenceScore \<lparr>trueWeight = Num t, falseWeight = Num f\<rparr> =
    Some (Num (rd (of_int \<lfloor>(if overflow_threshold \<le> rd (t + f) then 0
                                 else rd (\<bar>rd (t - f)\<bar> / rd (t + f))) * 10000 + 1 / 2\<rfloor>
                   / 10000)))"
proof -
  define m where "m = (if overflow_threshold \<le> rd (t + f) then 0
                   else rd (\<bar>rd (t - f)\<bar> / rd (t + f)))"
  have tf0: "0 \<le> t + f" using assms(3,4) by simp
  note sub = sub_nonneg_doubles [OF assms(1-4)]
  note m = margin_unit [OF assms(1-5), folded m_def]
  have nlt: "\<not> js_lt (fl (t + f)) (Num 100)" using assms(5) total_lt_iff [OF tf0] by simp
  note p = participation_one [OF assms(3,4,5)]
  note tf = Number_toFixed4_unit [OF m(2,3)]
  have "\<bar>rd m\<bar> < overflow_threshold" using m(2,3,4) overflow_threshold_gt(1) by simp
  then have "fl m = Num m" using m(4) by (simp add: fl_finite)
  then have "computeConfidenceScore \<lparr>trueWeight = Num t, falseWeight = Num f\<rparr> =
      Some (Num (rd (of_int \<lfloor>m * 10000 + 1 / 2\<rfloor> / 10000)))"
    using nlt assms(6) m(1) p tf(1)
    by (simp add: computeConfidenceScore_def Let_def MIN_REQUIRED_WEIGHT_def sub(1))
  then show ?thesis by (simp only: m_def)
qed

text \<open>
  C8, on doubles. For finite non-negative doubles \<open>t\<close> and \<open>f\<close> as the two weights,
  \<open>computeConfidenceScore\<close> returns \<open>null\<close> exactly when the double sum \<open>t + f\<close> is below
  100, which is exactly when the exact sum is below \<open>100 - 2^-47\<close>. Otherwise it returns
  0 when \<open>t = f\<close>, the participation factor is 1, and when \<open>t \<noteq> f\<close> the result is found as
  follows: \<open>m\<close> is the margin as the code computes it, the double quotient of the double
  \<open>|t - f|\<close> by the double sum (0 when the sum is \<open>Infinity\<close>); \<open>n\<close> is the integer nearest
  to \<open>10^4 * m\<close>, a tie going up; and the result \<open>v\<close> is the double nearest to
  \<open>n / 10^4\<close>, within \<open>2^-54\<close> of it. It lies between 0 and 1 and is positive exactly
  when \<open>m\<close> is at least 0.00005.
\<close>

theorem computeConfidenceScore_spec:
  assumes "is_double t" and "is_double f" and "0 \<le> t" and "0 \<le> f"
  shows "(computeConfidenceScore \<lparr>trueWeight = Num t, falseWeight = Num f\<rparr> = None
            \<longleftrightarrow> js_lt (js_add (Num t) (Num f)) (Num 100))
    \<and> (computeConfidenceScore \<lparr>trueWeight = Num t, falseWeight = Num f\<rparr> = None
            \<longleftrightarrow> t + f < 100 - 1 / 2 ^ 47)
    \<and> (100 - 1 / 2 ^ 47 \<le> t + f \<and> t = f \<longrightarrow>
          computeConfidenceScore \<lparr>trueWeight = Num t, falseWeight = Num f\<rparr> = Some (Num 0))
    \<and> (100 - 1 / 2 ^ 47 \<le> t + f \<longrightarrow>
          Math_min (js_div (js_add (Num t) (Num f)) MIN_REQUIRED_WEIGHT) (Num 1) = Num 1)
    \<and> (100 - 1 / 2 ^ 47 \<le> t + f \<and> t \<noteq> f \<longrightarrow>
          (\<exists>m n v.
             js_div (Math_abs (js_sub (Num t) (Num f))) (js_add (Num t) (Num f)) = Num m
             \<and> 0 \<le> m \<and> m \<le> 1
             \<and> of_int n \<le> m * 10000 + 1 / 2 \<and> m * 10000 + 1 / 2 < of_int n + 1
             \<and> computeConfidenceScore \<lparr>trueWeight = Num t, falseWeight = Num f\<rparr> = Some (Num v)
             \<and> fl (of_int n / 10000) = Num v
             \<and> \<bar>v - of_int n / 10000\<bar> \<le> 1 / 2 ^ 54
             \<and> 0 \<le> v \<and> v \<le> 1
             \<and> (0 < v \<longleftrightarrow> 1 / 20000 \<le> m)))"
proof -
  let ?r = "computeConfidenceScore \<lparr>trueWeight = Num t, falseWeight = Num f\<rparr>"
  have tf0: "0 \<le> t + f" using assms by simp
  note sub = sub_nonneg_doubles [OF assms]
  have c1: "?r = None \<longleftrightarrow> js_lt (js_add (Num t) (Num f)) (Num 100)"
    by (simp add: computeConfidenceScore_def MIN_REQUIRED_WEIGHT_def Let_def)
  have c2: "?r = None \<longleftrightarrow> t + f < 100 - 1 / 2 ^ 47"
    by (rule computeConfidenceScore_None_iff [OF assms(3,4)])
  have c3: "?r = Some (Num 0)" if "100 - 1 / 2 ^ 47 \<le> t + f" "t = f"
  proof -
    have "\<not> js_lt (fl (t + f)) (Num 100)" using that(1) total_lt_iff [OF tf0] by simp
    then show ?thesis
      using that(2) by (simp add: computeConfidenceScore_def MIN_REQUIRED_WEIGHT_def Let_def)
  qed
  have c4: "Math_min (js_div (js_add (Num t) (Num f)) MIN_REQUIRED_WEIGHT) (Num 1) = Num 1"
    if "100 - 1 / 2 ^ 47 \<le> t + f"
    using participation_one [OF assms(3,4) that] by (simp add: MIN_REQUIRED_WEIGHT_def)
  have c5: "\<exists>m n v.
             js_div (Math_abs (js_sub (Num t) (Num f))) (js_add (Num t) (Num f)) = Num m
             \<and> 0 \<le> m \<and> m \<le> 1
             \<and> of_int n \<le> m * 10000 + 1 / 2 \<and> m * 10000 + 1 / 2 < of_int n + 1
             \<and> ?r = Some (Num v)
             \<and> fl (of_int n / 10000) = Num v
             \<and> \<bar>v - of_int n / 10000\<bar> \<le> 1 / 2 ^ 54
             \<and> 0 \<le> v \<and> v \<le> 1
             \<and> (0 < v \<longleftrightarrow> 1 / 20000 \<le> m)"
    if h: "100 - 1 / 2 ^ 47 \<le> t + f" "t \<noteq> f"
  proof -
    define m where "m = (if overflow_threshold \<le> rd (t + f) then 0
                     else rd (\<bar>rd (t - f)\<bar> / rd (t + f)))"
    note m = margin_unit [OF assms h(1), folded m_def]
    have m': "js_div (Math_abs (js_sub (Num t) (Num f))) (js_add (Num t) (Num f)) = Num m"
      using m(1) by (simp add: sub(1))
    define n where "n = \<lfloor>m * 10000 + 1 / 2\<rfloor>"
    define v where "v = rd (of_int n / 10000)"
    note tf = Number_toFixed4_unit [OF m(2,3), folded n_def, folded v_def]
    have res: "?r = Some (Num v)"
      using computeConfidenceScore_value [OF assms h] by (simp only: m_def n_def v_def)
    have "\<bar>rd (of_int n / 10000)\<bar> < overflow_threshold"
      using tf(4,5) overflow_threshold_gt(1) by (simp add: v_def)
    then have flv: "fl (of_int n / 10000) = Num v" by (simp add: fl_finite v_def)
    have nn: "of_int n \<le> m * 10000 + 1 / 2" "m * 10000 + 1 / 2 < of_int n + 1"
      unfolding n_def by linarith+
    show ?thesis
      using m' m(2,3) nn res flv tf(7,4,5,6)
      by (intro exI [of _ m] exI [of _ n] exI [of _ v]) simp
  qed
  show ?thesis
    apply (intro conjI impI)
        apply (rule c1)
       apply (rule c2)
      apply (erule conjE, erule (1) c3)
     apply (erule c4)
    apply (erule conjE, erule (1) c5)
    done
qed

lemma is_double_of_int:
  assumes "\<bar>n\<bar> \<le> 2 ^ 53"
  shows "is_double (of_int n)"
proof -
  have "(of_int \<bar>n\<bar> :: rat) \<le> of_int (2 ^ 53)" using assms by (simp only: of_int_le_iff)
  moreover have "(of_int (2 ^ 53) :: rat) < overflow_threshold"
    by (simp add: overflow_threshold_def)
  ultimately have "\<bar>of_int n :: rat\<bar> < overflow_threshold" by simp
  then show ?thesis using rd_of_int [OF assms] by (simp add: is_double_iff)
qed

lemma rd_3_20000: "rd (3 / 20000) = 5534023222112865 / 2 ^ 65"
  by (rule rd_eval [where k = "- 13" and n = 5534023222112865]) simp_all

lemma rd_1_10000: "rd (1 / 10000) = 7378697629483821 / 2 ^ 66"
  by (rule rd_eval [where k = "- 14" and n = 7378697629483821]) simp_all

lemma rd_1_200001: "rd (1 / 200001) = 5902928588944112 / 2 ^ 70"
  by (rule rd_eval [where k = "- 18" and n = 5902928588944112]) simp_all

text \<open>
  The theorem at the weights 20003 and 19997: the total is 40000 and the exact margin
  0.00015, but the double quotient \<open>6 / 40000\<close> lies below 0.00015, so that \<open>toFixed(4)\<close>
  prints 0.0001, and the result is the double nearest to 0.0001.
\<close>

theorem computeConfidenceScore_spec_witness:
  "is_double 20003 \<and> is_double 19997 \<and> (0::rat) \<le> 20003 \<and> (0::rat) \<le> 19997
   \<and> (100 - 1 / 2 ^ 47 :: rat) \<le> 20003 + 19997 \<and> (20003::rat) \<noteq> 19997
   \<and> \<bar>20003 - 19997\<bar> / (20003 + 19997) = (15 / 100000 :: rat)
   \<and> js_div (Math_abs (js_sub (Num 20003) (Num 19997))) (js_add (Num 20003) (Num 19997))
       = Num (5534023222112865 / 2 ^ 65)
   \<and> computeConfidenceScore \<lparr>trueWeight = Num 20003, falseWeight = Num 19997\<rparr>
       = Some (Num (7378697629483821 / 2 ^ 66))
   \<and> computeConfidenceScore \<lparr>trueWeight = Num 20003, falseWeight = Num 19997\<rparr> \<noteq> None"
proof -
  have d: "is_double 20003" "is_double 19997"
    using is_double_of_int [of 20003] is_double_of_int [of 19997] by simp_all
  have ot: "\<not> overflow_threshold \<le> 40000" "\<not> overflow_threshold \<le> 6"
    by (simp_all add: overflow_threshold_def)
  have mv: "js_div (Math_abs (js_sub (Num 20003) (Num 19997))) (js_add (Num 20003) (Num 19997))
       = Num (5534023222112865 / 2 ^ 65)"
    using ot by (simp add: js_sub_def fl_def rd_3_20000)
  from computeConfidenceScore_spec [OF d] obtain m n v where
    h: "js_div (Math_abs (js_sub (Num 20003) (Num 19997))) (js_add (Num 20003) (Num 19997)) = Num m"
      "of_int n \<le> m * 10000 + 1 / 2" "m * 10000 + 1 / 2 < of_int n + 1"
      "computeConfidenceScore \<lparr>trueWeight = Num 20003, falseWeight = Num 19997\<rparr> = Some (Num v)"
      "fl (of_int n / 10000) = Num v"
    by auto
  have m: "m = 5534023222112865 / 2 ^ 65" using h(1) mv by simp
  have "(of_int n :: rat) < of_int 2" "(of_int 0 :: rat) < of_int n" using h(2,3) unfolding m by simp_all
  then have "n < 2" "0 < n" by (simp_all only: of_int_less_iff)
  then have n: "n = 1" by simp
  have "fl (1 / 10000) = Num (7378697629483821 / 2 ^ 66)"
    by (simp add: fl_def rd_1_10000) (simp add: overflow_threshold_def)
  then have "v = 7378697629483821 / 2 ^ 66" using h(5) by (simp add: n)
  then show ?thesis using d mv h(4) by simp
qed

text \<open>
  C8 as stated fails: with weights 100001 and 100000 the weights differ and the total is
  above 100, yet the margin rounds to 0.0000, so the score is 0 and not strictly
  positive.
\<close>

theorem computeConfidenceScore_zero_counterexample:
  "is_double 100001 \<and> is_double 100000
   \<and> computeConfidenceScore \<lparr>trueWeight = Num 100001, falseWeight = Num 100000\<rparr> = Some (Num 0)"
proof -
  have d: "is_double 100001" "is_double 100000"
    using is_double_of_int [of 100001] is_double_of_int [of 100000] by simp_all
  have ot: "\<not> overflow_threshold \<le> 200001" by (simp add: overflow_threshold_def)
  have "\<lfloor>(5902928588944112 / 2 ^ 70 :: rat) * 10000 + 1 / 2\<rfloor> = 0" by (simp add: floor_eq_iff)
  then show ?thesis
    using computeConfidenceScore_value [OF d] d ot by (simp add: rd_1_200001)
qed

section \<open>Aggregation: results\<close>

lemma tally_weightFor_gen:
  "tally vs (tw, fw) =
     (foldl js_add tw (map computeWeight (filter (\<lambda>v. verdict v = TRUE) vs)),
      foldl js_add fw (map computeWeight (filter (\<lambda>v. verdict v = FALSE) vs)))"
proof (induction vs arbitrary: tw fw)
  case Nil
  then show ?case by simp
next
  case (Cons v vs)
  then show ?case by (cases "verdict v") (simp_all add: Let_def)
qed

lemma tally_weightFor: "tally vs (Num 0, Num 0) = (weightFor TRUE vs, weightFor FALSE vs)"
  by (simp add: tally_weightFor_gen weightFor_def)

lemma rd_error_below:
  assumes "0 \<le> x" and "x < 2 powi k" and "- 1021 \<le> k"
  shows "\<bar>rd x - x\<bar> \<le> 2 powi (k - 54)"
proof (cases "x = 0")
  case True
  then show ?thesis by simp
next
  case False
  then have x: "0 < x" using assms(1) by simp
  have "2 powi ilog2 x < (2::rat) powi k" using ilog2_bounds(1) [OF x] assms(2) by linarith
  then have "ilog2 x < k" by (rule two_powi_less_cancel)
  then have "ulp_exponent x \<le> k - 53" using x assms(3) by (simp add: ulp_exponent_def)
  then have "(2::rat) powi ulp_exponent x \<le> 2 powi (k - 53)" by (rule two_powi_le)
  moreover have "(2::rat) powi (k - 53) = 2 * 2 powi (k - 54)"
    using two_powi_add [of 1 "k - 54"] by simp
  ultimately show ?thesis using rd_error [of x] by simp
qed

lemma rd_twice:
  assumes "rd x = x"
  shows "rd (2 * x) = 2 * x"
proof -
  from rd_on_grid [of x] obtain n e where
    g: "rd x = of_int n * 2 powi e" "\<bar>n\<bar> \<le> 2 ^ 53" "- 1074 \<le> e" by auto
  have "2 * x = of_int n * 2 powi (e + 1)" using g(1) assms by (simp add: two_powi_add)
  moreover have "rd (of_int n * 2 powi (e + 1)) = of_int n * 2 powi (e + 1)"
    using g(2,3) by (intro rd_grid) simp_all
  ultimately show ?thesis by simp
qed

text \<open>A weight that the loop can meet: a non-negative double, or \<open>Infinity\<close>.\<close>

lemma js_mul_nonneg:
  assumes "nonneg_double x" and "nonneg_double y"
  shows "js_mul x y = PosInf \<or> nonneg_double (js_mul x y)"
proof -
  from assms obtain a b where
    ab: "x = Num a" "y = Num b" "0 \<le> a" "0 \<le> b"
    by (auto simp add: nonneg_double_def split: double.splits)
  have 0: "0 \<le> a * b" using ab(3,4) by simp
  have "fl (a * b) = PosInf \<or> (is_double (rd (a * b)) \<and> fl (a * b) = Num (rd (a * b)))"
    by (simp add: fl_nonneg [OF 0] is_double_iff) (use rd_nonneg [OF 0] in linarith)
  then show ?thesis using rd_nonneg [OF 0] by (auto simp add: ab(1,2) nonneg_double_def)
qed

lemma js_add_nonneg:
  assumes "x = PosInf \<or> nonneg_double x" and "y = PosInf \<or> nonneg_double y"
  shows "js_add x y = PosInf \<or> nonneg_double (js_add x y)"
proof (cases "x = PosInf \<or> y = PosInf")
  case True
  then show ?thesis using assms
    by (auto simp add: nonneg_double_def split: double.splits)
next
  case False
  with assms obtain a b where
    ab: "x = Num a" "y = Num b" "0 \<le> a" "0 \<le> b"
    by (auto simp add: nonneg_double_def split: double.splits)
  have 0: "0 \<le> a + b" using ab(3,4) by simp
  have "fl (a + b) = PosInf \<or> (is_double (rd (a + b)) \<and> fl (a + b) = Num (rd (a + b)))"
    by (simp add: fl_nonneg [OF 0] is_double_iff) (use rd_nonneg [OF 0] in linarith)
  then show ?thesis using rd_nonneg [OF 0] by (auto simp add: ab(1,2) nonneg_double_def)
qed

lemma foldl_js_add_nonneg:
  assumes "\<forall>w \<in> set ws. w = PosInf \<or> nonneg_double w" and "acc = PosInf \<or> nonneg_double acc"
  shows "foldl js_add acc ws = PosInf \<or> nonneg_double (foldl js_add acc ws)"
  using assms
proof (induction ws arbitrary: acc)
  case Nil
  then show ?case by simp
next
  case (Cons w ws)
  have "js_add acc w = PosInf \<or> nonneg_double (js_add acc w)"
    using Cons.prems by (intro js_add_nonneg) simp_all
  then show ?case using Cons.IH [of "js_add acc w"] Cons.prems(1) by simp
qed

lemma weightFor_nonneg:
  assumes "\<forall>v \<in> set vs. nonneg_double (stakeAmount v) \<and> nonneg_double (reputationWeight v)"
  shows "weightFor d vs = PosInf \<or> nonneg_double (weightFor d vs)"
  unfolding weightFor_def
proof (rule foldl_js_add_nonneg)
  show "\<forall>w \<in> set (map computeWeight (filter (\<lambda>v. verdict v = d) vs)).
          w = PosInf \<or> nonneg_double w"
    using assms js_mul_nonneg by (auto simp add: computeWeight_def)
  show "Num 0 = PosInf \<or> nonneg_double (Num 0)"
    by (simp add: nonneg_double_def is_double_iff)
qed

lemma aggregate_unfold:
  "aggregate cid vs =
     (if vs = [] then
        \<lparr>r_claimId = cid, status = INCONCLUSIVE, confidence = Num 0,
         metadata = \<lparr>m_trueWeight = Num 0, m_falseWeight = Num 0, verificationCount = 0\<rparr>\<rparr>
      else if js_eq (js_add (weightFor TRUE vs) (weightFor FALSE vs)) (Num 0)
              \<or> js_eq (weightFor TRUE vs) (weightFor FALSE vs)
        then inconclusiveResult cid (weightFor TRUE vs) (weightFor FALSE vs) (length vs)
      else if js_lt (computeConfidence (Math_max (weightFor TRUE vs) (weightFor FALSE vs))
                       (js_add (weightFor TRUE vs) (weightFor FALSE vs))) (Num 10)
        then inconclusiveResult cid (weightFor TRUE vs) (weightFor FALSE vs) (length vs)
      else
        \<lparr>r_claimId = cid,
         status = (if js_gt (weightFor TRUE vs) (weightFor FALSE vs)
                   then VERIFIED_TRUE else VERIFIED_FALSE),
         confidence = computeConfidence (Math_max (weightFor TRUE vs) (weightFor FALSE vs))
                        (js_add (weightFor TRUE vs) (weightFor FALSE vs)),
         metadata = \<lparr>m_trueWeight = weightFor TRUE vs, m_falseWeight = weightFor FALSE vs,
                     verificationCount = length vs\<rparr>\<rparr>)"
  by (simp add: aggregate_def tally_weightFor Let_def)

text \<open>The winning share and the confidence, for two distinct non-negative doubles.\<close>

lemma winning_confidence:
  assumes "is_double T" and "is_double F" and "0 \<le> T" and "0 \<le> F" and "T \<noteq> F"
    and "fl (T + F) = Num tot"
  defines "W \<equiv> max T F"
  defines "q \<equiv> rd (W / tot)"
  defines "p \<equiv> rd (q * 100)"
  shows "W \<le> tot" and "tot \<le> 2 * W" and "0 < tot"
    and "fl (W / tot) = Num q" and "1 / 2 \<le> q" and "q \<le> 1"
    and "fl (q * 100) = Num p" and "50 \<le> p" and "p \<le> 100"
    and "\<bar>p - 100 * W / tot\<bar> \<le> 1 / 2 ^ 45"
proof -
  have W: "rd W = W" "0 < W" "T \<le> W" "F \<le> W"
    using assms(1-5) by (auto simp add: W_def is_double_iff max_def)
  have tot: "tot = rd (T + F)" using assms(6) by (simp add: fl_Num_iff)
  have "rd W \<le> rd (T + F)" using assms(3,4) by (intro rd_mono) (simp add: W_def max_def)
  then show 1: "W \<le> tot" by (simp add: W(1) tot)
  have "rd (T + F) \<le> rd (2 * W)" using W(3,4) by (intro rd_mono) simp
  then show 2: "tot \<le> 2 * W" by (simp add: rd_twice [OF W(1)] tot)
  show 3: "0 < tot" using 1 W(2) by simp
  have q0: "1 / 2 \<le> W / tot" "W / tot \<le> 1" using 1 2 3 by (simp_all add: field_simps)
  have "rd (1 / 2) \<le> rd (W / tot)" using q0(1) by (rule rd_mono)
  then show q1: "1 / 2 \<le> q" by (simp add: q_def)
  have "rd (W / tot) \<le> rd 1" using q0(2) by (rule rd_mono)
  then show q2: "q \<le> 1" by (simp add: q_def)
  have "\<bar>rd (W / tot)\<bar> < overflow_threshold"
    using q1 q2 overflow_threshold_gt(1) by (simp add: q_def)
  then show "fl (W / tot) = Num q" by (simp add: fl_finite q_def)
  have "rd 50 \<le> rd (q * 100)" using q1 by (intro rd_mono) simp
  then show p1: "50 \<le> p" by (simp add: p_def)
  have "rd (q * 100) \<le> rd 100" using q2 by (intro rd_mono) simp
  then show p2: "p \<le> 100" by (simp add: p_def)
  have "\<bar>rd (q * 100)\<bar> < overflow_threshold"
    using p1 p2 overflow_threshold_gt(2) by (simp add: p_def)
  then show "fl (q * 100) = Num p" by (simp add: fl_finite p_def)
  have "W / tot < 2 powi 1" using q0(2) by simp
  moreover have "0 \<le> W / tot" using q0(1) by linarith
  ultimately have "\<bar>rd (W / tot) - W / tot\<bar> \<le> 2 powi (1 - 54)"
    by (intro rd_error_below) simp_all
  then have e1: "\<bar>q - W / tot\<bar> \<le> 1 / 2 ^ 53" by (simp add: q_def)
  have "q * 100 < 2 powi 7" using q2 by simp
  moreover have "0 \<le> q * 100" using q1 by simp
  ultimately have "\<bar>rd (q * 100) - q * 100\<bar> \<le> 2 powi (7 - 54)"
    by (intro rd_error_below) simp_all
  then have e2: "\<bar>p - q * 100\<bar> \<le> 1 / 2 ^ 47" by (simp add: p_def)
  have "\<bar>p - 100 * (W / tot)\<bar> \<le> \<bar>p - q * 100\<bar> + 100 * \<bar>q - W / tot\<bar>" by (simp add: abs_if)
  also have "\<dots> \<le> 1 / 2 ^ 47 + 100 * (1 / 2 ^ 53)" using e1 e2 by simp
  also have "\<dots> \<le> 1 / 2 ^ 45" by simp
  finally show "\<bar>p - 100 * W / tot\<bar> \<le> 1 / 2 ^ 45" by simp
qed

lemma js_add_PosInf_left: "js_add PosInf y \<noteq> Num z"
  by (cases y) simp_all

lemma js_add_PosInf_right: "js_add x PosInf \<noteq> Num z"
  by (cases x) simp_all

lemma finite_total:
  assumes "x = PosInf \<or> nonneg_double x" and "y = PosInf \<or> nonneg_double y"
    and "js_add x y = Num tot"
  shows "\<exists>T F. x = Num T \<and> y = Num F \<and> is_double T \<and> is_double F \<and> 0 \<le> T \<and> 0 \<le> F"
proof -
  have "x \<noteq> PosInf" "y \<noteq> PosInf"
    using assms(3) js_add_PosInf_left js_add_PosInf_right by auto
  with assms(1,2) show ?thesis
    by (auto simp add: nonneg_double_def split: double.splits)
qed

lemma aggregate_tie:
  assumes "weightFor TRUE vs = Num T" and "weightFor FALSE vs = Num T"
  shows "aggregate cid vs = inconclusiveResult cid (Num T) (Num T) (length vs)
     \<or> (vs = [] \<and> aggregate cid vs = inconclusiveResult cid (Num 0) (Num 0) 0)"
  by (simp add: aggregate_unfold assms inconclusiveResult_def)

lemma aggregate_decided:
  assumes "is_double T" and "is_double F" and "0 \<le> T" and "0 \<le> F" and "T \<noteq> F"
    and "weightFor TRUE vs = Num T" and "weightFor FALSE vs = Num F"
    and "fl (T + F) = Num tot"
  shows "aggregate cid vs =
     \<lparr>r_claimId = cid, status = (if F < T then VERIFIED_TRUE else VERIFIED_FALSE),
      confidence = Num (of_int \<lfloor>rd (rd (max T F / tot) * 100) + 1 / 2\<rfloor>),
      metadata = \<lparr>m_trueWeight = Num T, m_falseWeight = Num F,
                  verificationCount = length vs\<rparr>\<rparr>"
    and "50 \<le> \<lfloor>rd (rd (max T F / tot) * 100) + 1 / 2\<rfloor>"
    and "\<lfloor>rd (rd (max T F / tot) * 100) + 1 / 2\<rfloor> \<le> 100"
proof -
  note w = winning_confidence [OF assms(1-5,8)]
  define p where "p = rd (rd (max T F / tot) * 100)"
  define n where "n = \<lfloor>p + 1 / 2\<rfloor>"
  have "of_int 50 \<le> p + 1 / 2" using w(8) by (simp add: p_def)
  then show n1: "50 \<le> \<lfloor>rd (rd (max T F / tot) * 100) + 1 / 2\<rfloor>"
    unfolding p_def [symmetric] by (simp only: le_floor_iff)
  have "p + 1 / 2 < of_int 101" using w(9) by (simp add: p_def)
  then have "\<lfloor>p + 1 / 2\<rfloor> < 101" by (simp only: floor_less_iff)
  then show n2: "\<lfloor>rd (rd (max T F / tot) * 100) + 1 / 2\<rfloor> \<le> 100"
    unfolding p_def [symmetric] by simp
  have ne: "vs \<noteq> []" using assms(5,6,7) by (auto simp add: weightFor_def)
  have mx: "Math_max (Num T) (Num F) = Num (max T F)" by (simp add: max_def)
  have conf: "computeConfidence (Math_max (Num T) (Num F)) (Num tot) = Num (of_int n)"
    using w(3,4,7) by (simp add: computeConfidence_def n_def p_def mx del: Math_max.simps)
  have "(of_int 50 :: rat) \<le> of_int n" using n1 unfolding p_def [symmetric] n_def [symmetric]
    by (simp only: of_int_le_iff)
  then have c10: "\<not> js_lt (Num (of_int n)) (Num 10)" by simp
  have t0: "tot \<noteq> 0" using w(3) by simp
  show "aggregate cid vs =
     \<lparr>r_claimId = cid, status = (if F < T then VERIFIED_TRUE else VERIFIED_FALSE),
      confidence = Num (of_int \<lfloor>rd (rd (max T F / tot) * 100) + 1 / 2\<rfloor>),
      metadata = \<lparr>m_trueWeight = Num T, m_falseWeight = Num F,
                  verificationCount = length vs\<rparr>\<rparr>"
    unfolding p_def [symmetric] n_def [symmetric]
    using ne assms(5) t0 c10
    by (simp add: aggregate_unfold assms(6,7,8) conf js_gt_def del: Math_max.simps)
qed

text \<open>
  C9, on doubles. Let every stake and reputation weight be a finite non-negative double,
  let \<open>T\<close> and \<open>F\<close> be the weights the loop accumulates for TRUE and for FALSE, and let
  their double sum \<open>tot\<close> be finite. Then \<open>aggregate\<close> returns \<open>VERIFIED_TRUE\<close> exactly when
  \<open>F < T\<close> and \<open>VERIFIED_FALSE\<close> exactly when \<open>T < F\<close>. On a non-tie the confidence is the
  integer \<open>n\<close> nearest (a tie going up) to the double \<open>p\<close>, where \<open>q\<close> is the double
  quotient of the winning weight by \<open>tot\<close> and \<open>p\<close> the double product of \<open>q\<close> and 100;
  \<open>n\<close> lies between 50 and 100 and within \<open>1/2 + 2^-45\<close> of
  \<open>100 * max T F / tot\<close>. On empty input, zero total or a tie the result is
  \<open>INCONCLUSIVE\<close> with confidence 0, and a \<open>VERIFIED\<close> result never has a confidence
  below 10.
\<close>

theorem aggregate_spec:
  assumes "\<forall>v \<in> set vs. nonneg_double (stakeAmount v) \<and> nonneg_double (reputationWeight v)"
    and "js_add (weightFor TRUE vs) (weightFor FALSE vs) = Num tot"
  shows "\<exists>T F. weightFor TRUE vs = Num T \<and> weightFor FALSE vs = Num F \<and> 0 \<le> T \<and> 0 \<le> F
    \<and> (status (aggregate cid vs) = VERIFIED_TRUE \<longleftrightarrow> F < T)
    \<and> (status (aggregate cid vs) = VERIFIED_FALSE \<longleftrightarrow> T < F)
    \<and> (T \<noteq> F \<longrightarrow>
          (\<exists>n q p. confidence (aggregate cid vs) = Num (of_int n) \<and> 50 \<le> n \<and> n \<le> 100
             \<and> js_div (Math_max (Num T) (Num F)) (Num tot) = Num q
             \<and> js_mul (Num q) (Num 100) = Num p
             \<and> of_int n \<le> p + 1 / 2 \<and> p + 1 / 2 < of_int n + 1
             \<and> \<bar>of_int n - 100 * max T F / tot\<bar> \<le> 1 / 2 + 1 / 2 ^ 45))
    \<and> (vs = [] \<or> tot = 0 \<or> T = F \<longrightarrow>
          status (aggregate cid vs) = INCONCLUSIVE \<and> confidence (aggregate cid vs) = Num 0)
    \<and> (status (aggregate cid vs) \<noteq> INCONCLUSIVE \<longrightarrow>
          \<not> js_lt (confidence (aggregate cid vs)) (Num 10))"
proof -
  from finite_total [OF weightFor_nonneg [OF assms(1)] weightFor_nonneg [OF assms(1)] assms(2)]
  obtain T F where
    TF: "weightFor TRUE vs = Num T" "weightFor FALSE vs = Num F" "is_double T" "is_double F"
      "0 \<le> T" "0 \<le> F" by auto
  have tot: "fl (T + F) = Num tot" using assms(2) by (simp add: TF(1,2))
  have body: "(status (aggregate cid vs) = VERIFIED_TRUE \<longleftrightarrow> F < T)
    \<and> (status (aggregate cid vs) = VERIFIED_FALSE \<longleftrightarrow> T < F)
    \<and> (T \<noteq> F \<longrightarrow>
          (\<exists>n q p. confidence (aggregate cid vs) = Num (of_int n) \<and> 50 \<le> n \<and> n \<le> 100
             \<and> js_div (Math_max (Num T) (Num F)) (Num tot) = Num q
             \<and> js_mul (Num q) (Num 100) = Num p
             \<and> of_int n \<le> p + 1 / 2 \<and> p + 1 / 2 < of_int n + 1
             \<and> \<bar>of_int n - 100 * max T F / tot\<bar> \<le> 1 / 2 + 1 / 2 ^ 45))
    \<and> (vs = [] \<or> tot = 0 \<or> T = F \<longrightarrow>
          status (aggregate cid vs) = INCONCLUSIVE \<and> confidence (aggregate cid vs) = Num 0)
    \<and> (status (aggregate cid vs) \<noteq> INCONCLUSIVE \<longrightarrow>
          \<not> js_lt (confidence (aggregate cid vs)) (Num 10))"
  proof (cases "T = F")
    case True
    have "status (aggregate cid vs) = INCONCLUSIVE \<and> confidence (aggregate cid vs) = Num 0"
      using aggregate_tie [of vs T cid] TF(1,2) True by (auto simp add: inconclusiveResult_def)
    then show ?thesis using True by simp
  next
    case False
    note w = winning_confidence [OF TF(3-6) False tot]
    note a = aggregate_decided [OF TF(3-6) False TF(1,2) tot]
    define q where "q = rd (max T F / tot)"
    define p where "p = rd (q * 100)"
    define n where "n = \<lfloor>p + 1 / 2\<rfloor>"
    have nn: "of_int n \<le> p + 1 / 2" "p + 1 / 2 < of_int n + 1" unfolding n_def by linarith+
    have "\<bar>of_int n - 100 * max T F / tot\<bar> \<le> \<bar>of_int n - p\<bar> + \<bar>p - 100 * max T F / tot\<bar>"
      by simp
    moreover have "\<bar>of_int n - p\<bar> \<le> 1 / 2" using nn by (simp only: abs_le_iff) linarith
    ultimately have close: "\<bar>of_int n - 100 * max T F / tot\<bar> \<le> 1 / 2 + 1 / 2 ^ 45"
      using w(10) unfolding q_def [symmetric] p_def [symmetric] by linarith
    have mx: "Math_max (Num T) (Num F) = Num (max T F)" by (simp add: max_def)
    have ne: "vs \<noteq> []" using False TF(1,2) by (auto simp add: weightFor_def)
    have conf: "confidence (aggregate cid vs) = Num (of_int n)"
      by (simp add: a(1) n_def p_def q_def)
    have ex: "\<exists>n q p. confidence (aggregate cid vs) = Num (of_int n) \<and> 50 \<le> n \<and> n \<le> 100
             \<and> js_div (Math_max (Num T) (Num F)) (Num tot) = Num q
             \<and> js_mul (Num q) (Num 100) = Num p
             \<and> of_int n \<le> p + 1 / 2 \<and> p + 1 / 2 < of_int n + 1
             \<and> \<bar>of_int n - 100 * max T F / tot\<bar> \<le> 1 / 2 + 1 / 2 ^ 45"
      using conf a(2,3) w(3,4,7) nn close
      unfolding q_def [symmetric] p_def [symmetric] n_def [symmetric]
      by (intro exI [of _ n] exI [of _ q] exI [of _ p]) (simp add: mx del: Math_max.simps)
    have "(of_int 50 :: rat) \<le> of_int n" using a(2)
      unfolding q_def [symmetric] p_def [symmetric] n_def [symmetric]
      by (simp only: of_int_le_iff)
    then have c10: "\<not> js_lt (confidence (aggregate cid vs)) (Num 10)" by (simp add: conf)
    have st: "status (aggregate cid vs) = (if F < T then VERIFIED_TRUE else VERIFIED_FALSE)"
      by (simp add: a(1))
    have t0: "tot \<noteq> 0" using w(3) by simp
    show ?thesis
      using False ex c10 st ne t0 by auto
  qed
  show ?thesis
    using TF(1,2,5,6) body by (intro exI [of _ T] exI [of _ F]) simp
qed

lemma fl_20_fifth: "fl (18014398509481985 / 4503599627370496) = Num (4)"
  by (rule fl_eval [where k = "2" and n = 4503599627370496]) (simp_all add: overflow_threshold_def)

lemma fl_5_7: "fl (5 / 7) = Num (6433713753386423 / 9007199254740992)"
  by (rule fl_eval [where k = "- 1" and n = 6433713753386423]) (simp_all add: overflow_threshold_def)

lemma fl_5_7_100: "fl (160842843834660575 / 2251799813685248) = Num (5026338869833143 / 70368744177664)"
  by (rule fl_eval [where k = "6" and n = 5026338869833143]) (simp_all add: overflow_threshold_def)

lemma fl_2_3: "fl (2 / 3) = Num (6004799503160661 / 9007199254740992)"
  by (rule fl_eval [where k = "- 1" and n = 6004799503160661]) (simp_all add: overflow_threshold_def)

lemma fl_2_3_100: "fl (150119987579016525 / 2251799813685248) = Num (2345624805922133 / 35184372088832)"
  by (rule fl_eval [where k = "6" and n = 4691249611844266]) (simp_all add: overflow_threshold_def)

lemma fl_23_40: "fl (23 / 40) = Num (2589569785738035 / 4503599627370496)"
  by (rule fl_eval [where k = "- 1" and n = 5179139571476070]) (simp_all add: overflow_threshold_def)

lemma fl_23_40_100: "fl (64739244643450875 / 1125899906842624) = Num (8092405580431359 / 140737488355328)"
  by (rule fl_eval [where k = "5" and n = 8092405580431359]) (simp_all add: overflow_threshold_def)

lemma fl_2_53_1: "fl (9007199254740993) = Num (9007199254740992)"
  by (rule fl_eval_tie [where k = "53" and n = 4503599627370496]) (simp_all add: overflow_threshold_def)

lemma is_double_numeral [simp]: "(numeral w :: int) \<le> 2 ^ 53 \<Longrightarrow> is_double (numeral w)"
  using is_double_of_int [of "numeral w"] by simp

lemma is_double_0 [simp]: "is_double 0"
  using is_double_of_int [of 0] by simp

lemma is_double_1 [simp]: "is_double 1"
  using is_double_of_int [of 1] by simp

lemma nonneg_double_Num [simp]: "nonneg_double (Num a) \<longleftrightarrow> is_double a \<and> 0 \<le> a"
  by (simp add: nonneg_double_def)

lemma is_double_fifth: "is_double (3602879701896397 / 2 ^ 54)"
  using is_double_grid [of 3602879701896397 "- 54"] by simp

text \<open>
  The theorem on the repository's test "allows reputation-weighted minority to win":
  FALSE with stake 20 and reputation 0.2 (weight 4) against TRUE with stake 5 and
  reputation 2 (weight 10) is \<open>VERIFIED_TRUE\<close> with confidence 71.
\<close>

theorem aggregate_spec_witness:
  "nonneg_double (stakeAmount minority_false) \<and> nonneg_double (reputationWeight minority_false)
   \<and> nonneg_double (stakeAmount minority_true) \<and> nonneg_double (reputationWeight minority_true)
   \<and> js_add (weightFor TRUE [minority_false, minority_true])
        (weightFor FALSE [minority_false, minority_true]) = Num 14
   \<and> weightFor TRUE [minority_false, minority_true] = Num 10
   \<and> weightFor FALSE [minority_false, minority_true] = Num 4
   \<and> status (aggregate ''claim-1'' [minority_false, minority_true]) = VERIFIED_TRUE
   \<and> confidence (aggregate ''claim-1'' [minority_false, minority_true]) = Num 71"
proof -
  let ?vs = "[minority_false, minority_true]"
  have n: "nonneg_double (stakeAmount minority_false)"
    "nonneg_double (reputationWeight minority_false)"
    "nonneg_double (stakeAmount minority_true)" "nonneg_double (reputationWeight minority_true)"
    using is_double_fifth by (simp_all add: minority_false_def minority_true_def nonneg_double_def)
  then have h: "\<forall>v \<in> set ?vs. nonneg_double (stakeAmount v) \<and> nonneg_double (reputationWeight v)"
    by simp
  have t: "weightFor TRUE ?vs = Num 10"
    by (simp add: weightFor_def computeWeight_def minority_false_def minority_true_def fl_numeral)
  have f: "weightFor FALSE ?vs = Num 4"
    by (simp add: weightFor_def computeWeight_def minority_false_def minority_true_def
        fl_20_fifth fl_numeral)
  have tot: "js_add (weightFor TRUE ?vs) (weightFor FALSE ?vs) = Num 14"
    by (simp add: t f fl_numeral)
  from aggregate_spec [OF h tot, of "''claim-1''"] obtain T F where
    TF: "weightFor TRUE ?vs = Num T" "weightFor FALSE ?vs = Num F"
      "status (aggregate ''claim-1'' ?vs) = VERIFIED_TRUE \<longleftrightarrow> F < T"
      "T \<noteq> F \<longrightarrow>
          (\<exists>n q p. confidence (aggregate ''claim-1'' ?vs) = Num (of_int n) \<and> 50 \<le> n \<and> n \<le> 100
             \<and> js_div (Math_max (Num T) (Num F)) (Num 14) = Num q
             \<and> js_mul (Num q) (Num 100) = Num p
             \<and> of_int n \<le> p + 1 / 2 \<and> p + 1 / 2 < of_int n + 1
             \<and> \<bar>of_int n - 100 * max T F / 14\<bar> \<le> 1 / 2 + 1 / 2 ^ 45)"
    by blast
  have T: "T = 10" and F: "F = 4" using TF(1,2) t f by simp_all
  from TF(4) obtain n q p where
    c: "confidence (aggregate ''claim-1'' ?vs) = Num (of_int n)"
      "js_div (Math_max (Num T) (Num F)) (Num 14) = Num q"
      "js_mul (Num q) (Num 100) = Num p"
      "of_int n \<le> p + 1 / 2" "p + 1 / 2 < of_int n + 1"
    unfolding T F by auto
  have q: "q = 6433713753386423 / 2 ^ 53" using c(2) unfolding T F by (simp add: fl_5_7)
  have p: "p = 5026338869833143 / 2 ^ 46" using c(3) unfolding q by (simp add: fl_5_7_100)
  have "(of_int n :: rat) < of_int 72" "(of_int 70 :: rat) < of_int n" using c(4,5) unfolding p by simp_all
  then have "n < 72" "70 < n" by (simp_all only: of_int_less_iff)
  then have "n = 71" by simp
  then show ?thesis using n t f tot TF(3) c(1) unfolding T F by simp
qed

text \<open>
  C9 as stated fails on two counts. With the weights 575 and 425 the quotient
  \<open>575 / 1000\<close> is a double below 0.575 and its product with 100 a double below 57.5,
  so the confidence is 57, whereas \<open>round(100 * 575 / 1000) = 58\<close>. And with TRUE
  weights \<open>2^53\<close> and 1 against a FALSE weight \<open>2^53\<close>, the sum \<open>2^53 + 1\<close> is rounded
  to \<open>2^53\<close>: the loop sees a tie and the result is \<open>INCONCLUSIVE\<close>, although the TRUE
  weight is the larger.
\<close>

lemma aggregate_575_425:
  "aggregate ''c'' [vote TRUE 575, vote FALSE 425] =
     \<lparr>r_claimId = ''c'', status = VERIFIED_TRUE, confidence = Num 57,
      metadata = \<lparr>m_trueWeight = Num 575, m_falseWeight = Num 425, verificationCount = 2\<rparr>\<rparr>"
proof -
  have "\<lfloor>(8092405580431359 / 140737488355328 :: rat) + 1 / 2\<rfloor> = 57"
    by (simp add: floor_eq_iff)
  then show ?thesis
    by (simp add: aggregate_unfold weightFor_def computeWeight_def vote_def
        computeConfidence_def fl_numeral fl_23_40 fl_23_40_100 js_gt_def)
qed

lemma aggregate_absorbed:
  "status (aggregate ''c'' [vote TRUE 9007199254740992, vote TRUE 1, vote FALSE 9007199254740992])
     = INCONCLUSIVE"
  by (simp add: aggregate_unfold weightFor_def computeWeight_def vote_def
      fl_numeral fl_2_53_1 inconclusiveResult_def)

theorem aggregate_rounding_counterexample:
  "status (aggregate ''c'' [vote TRUE 575, vote FALSE 425]) = VERIFIED_TRUE
   \<and> confidence (aggregate ''c'' [vote TRUE 575, vote FALSE 425]) = Num 57
   \<and> \<lfloor>(100 * 575 / (575 + 425) + 1 / 2 :: rat)\<rfloor> = 58
   \<and> status (aggregate ''c''
         [vote TRUE 9007199254740992, vote TRUE 1, vote FALSE 9007199254740992]) = INCONCLUSIVE
   \<and> (9007199254740992 :: rat) < 9007199254740992 + 1
   \<and> (9007199254740992 :: int) = 2 ^ 53"
  by (simp add: aggregate_575_425 aggregate_absorbed floor_eq_iff)

section \<open>Sybil-weighted votes: results\<close>

lemma rd_half_normal:
  assumes "rd x = x" and "2 powi (- 1021) \<le> x"
  shows "rd (x / 2) = x / 2"
proof -
  have x: "0 < x" using assms(2) two_powi_pos [of "- 1021"] by linarith
  have "2 powi (- 1021) < (2::rat) powi (ilog2 x + 1)"
    using assms(2) ilog2_bounds(2) [OF x] by linarith
  then have "- 1021 < ilog2 x + 1" by (rule two_powi_less_cancel)
  then have e: "ulp_exponent x = ilog2 x - 52" using x by (simp add: ulp_exponent_def)
  define n where "n = rne (x / 2 powi ulp_exponent x)"
  have xn: "x = of_int n * 2 powi ulp_exponent x" using assms(1) x by (simp add: rd_def n_def)
  have "x / 2 powi ulp_exponent x \<le> of_int (2 ^ 53)" using scaled_bounds(1) [OF x] by simp
  then have n1: "n \<le> 2 ^ 53" unfolding n_def by (rule rne_le_int)
  have "(of_int 0 :: rat) \<le> x / 2 powi ulp_exponent x" using x by simp
  then have n0: "0 \<le> n" unfolding n_def by (rule rne_ge_int)
  have a: "x / 2 = of_int n * 2 powi (ulp_exponent x - 1)"
    by (subst xn) (simp add: two_powi_diff)
  have b: "rd (of_int n * 2 powi (ulp_exponent x - 1)) = of_int n * 2 powi (ulp_exponent x - 1)"
    using n0 n1 \<open>- 1021 < ilog2 x + 1\<close> by (intro rd_grid) (simp_all add: e)
  show ?thesis unfolding a by (rule b)
qed

lemma multiplier_unit:
  assumes "0 \<le> s" and "s \<le> 1" and "rd s = s"
  defines "m \<equiv> rd (1 / 2 + rd (s / 2))"
  shows "js_add (Num (1 / 2)) (js_mul (Num (1 / 2)) (Num s)) = Num m"
    and "1 / 2 \<le> m" and "m \<le> 1" and "rd m = m"
    and "\<bar>m - (1 / 2 + s / 2)\<bar> \<le> 1 / 2 ^ 53"
proof -
  define h where "h = rd (s / 2)"
  have h0: "0 \<le> h" unfolding h_def using assms(1) by (intro rd_nonneg) simp
  have "rd (s / 2) \<le> rd (1 / 2)" using assms(2) by (intro rd_mono) simp
  then have h1: "h \<le> 1 / 2" by (simp add: h_def)
  have "\<bar>rd (s / 2)\<bar> < overflow_threshold"
    using h0 h1 overflow_threshold_gt(1) by (simp add: h_def)
  then have fh: "fl (s / 2) = Num h" by (simp add: fl_finite h_def)
  have "rd (1 / 2) \<le> rd (1 / 2 + h)" using h0 by (intro rd_mono) simp
  then show m0: "1 / 2 \<le> m" by (simp add: m_def h_def)
  have "rd (1 / 2 + h) \<le> rd 1" using h1 by (intro rd_mono) simp
  then show m1: "m \<le> 1" by (simp add: m_def h_def)
  show "rd m = m" by (simp add: m_def)
  have "\<bar>rd (1 / 2 + h)\<bar> < overflow_threshold"
    using m0 m1 overflow_threshold_gt(1) by (simp add: m_def h_def)
  then have "fl (1 / 2 + h) = Num m" by (simp add: fl_finite m_def h_def)
  then show "js_add (Num (1 / 2)) (js_mul (Num (1 / 2)) (Num s)) = Num m"
    by (simp add: fh)
  have eh: "\<bar>h - s / 2\<bar> \<le> 2 powi (- 1075)"
  proof (cases "2 powi (- 1021) \<le> s")
    case True
    from rd_half_normal [OF assms(3) True] show ?thesis by (simp add: h_def)
  next
    case False
    then have lt: "s / 2 < 2 powi (- 1021)" using assms(1) by simp
    have "0 \<le> s / 2" using assms(1) by simp
    then have "\<bar>rd (s / 2) - s / 2\<bar> \<le> 2 powi (- 1021 - 54)"
      using lt by (rule rd_error_below) simp
    then show ?thesis by (simp add: h_def)
  qed
  have "1 / 2 + h < 2 powi 0 \<or> 1 / 2 + h = 1" using h1 by auto
  then have em: "\<bar>m - (1 / 2 + h)\<bar> \<le> 2 powi (- 54)"
  proof
    assume lt: "1 / 2 + h < 2 powi 0"
    have "0 \<le> 1 / 2 + h" using h0 by simp
    from rd_error_below [OF this lt] show ?thesis by (simp add: m_def h_def)
  next
    assume "1 / 2 + h = 1"
    then show ?thesis by (simp add: m_def h_def)
  qed
  have "\<bar>m - (1 / 2 + s / 2)\<bar> \<le> \<bar>m - (1 / 2 + h)\<bar> + \<bar>h - s / 2\<bar>" by simp
  also have "\<dots> \<le> 2 powi (- 54) + 2 powi (- 1075)" using em eh by simp
  also have "\<dots> \<le> 2 powi (- 54) + 2 powi (- 54)"
    using two_powi_le [of "- 1075" "- 54"] by simp
  also have "\<dots> = 1 / 2 ^ 53" by simp
  finally show "\<bar>m - (1 / 2 + s / 2)\<bar> \<le> 1 / 2 ^ 53" .
qed

lemma rd_rel_error:
  assumes "0 \<le> x"
  shows "\<bar>rd x - x\<bar> \<le> x / 2 ^ 53 + 2 powi (- 1075)"
proof (cases "x = 0")
  case True
  then show ?thesis by simp
next
  case False
  then have x: "0 < x" using assms by simp
  have e: "ulp_exponent x = max (ilog2 x - 52) (- 1074)" using x by (simp add: ulp_exponent_def)
  show ?thesis
  proof (cases "- 1074 \<le> ilog2 x - 52")
    case True
    then have "ulp_exponent x = ilog2 x + (- 53) + 1" by (simp add: e)
    then have "(2::rat) powi ulp_exponent x = 2 powi ilog2 x * 2 powi (- 53) * 2"
      by (simp only: two_powi_add) simp
    then have "2 powi ulp_exponent x / 2 = 2 powi ilog2 x * (2::rat) powi (- 53)" by simp
    also have "\<dots> \<le> x * 2 powi (- 53)"
      using ilog2_bounds(1) [OF x] by (intro mult_right_mono) simp_all
    finally have "2 powi ulp_exponent x / 2 \<le> x / 2 ^ 53" by simp
    moreover have "0 \<le> (2::rat) powi (- 1075)" by simp
    ultimately show ?thesis using rd_error [of x] by linarith
  next
    case False
    then have "ulp_exponent x = - 1075 + 1" by (simp add: e)
    then have "(2::rat) powi ulp_exponent x = 2 powi (- 1075) * 2"
      by (simp only: two_powi_add) simp
    then have "2 powi ulp_exponent x / 2 = (2::rat) powi (- 1075)" by simp
    moreover have "0 \<le> x / 2 ^ 53" using assms by simp
    ultimately show ?thesis using rd_error [of x] by linarith
  qed
qed

lemma finalWeight_bounds:
  assumes "is_double w" and "0 \<le> w" and "1 / 2 \<le> m" and "m \<le> 1"
  shows "js_mul (Num w) (Num m) = Num (rd (w * m))"
    and "rd (w / 2) \<le> rd (w * m)" and "rd (w * m) \<le> w"
    and "2 powi (- 1021) \<le> w \<Longrightarrow> w / 2 \<le> rd (w * m)"
    and "w = 0 \<Longrightarrow> rd (w * m) = 0"
proof -
  have w: "rd w = w" "w < overflow_threshold" using assms(1,2) by (simp_all add: is_double_iff)
  have "w * (1 / 2) \<le> w * m" using assms(2,3) by (intro mult_left_mono) simp_all
  then have "rd (w / 2) \<le> rd (w * m)" by (intro rd_mono) simp
  then show lo: "rd (w / 2) \<le> rd (w * m)" .
  have "w * m \<le> w * 1" using assms(2,4) by (intro mult_left_mono) simp_all
  then have "rd (w * m) \<le> rd w" by (intro rd_mono) simp
  then show hi: "rd (w * m) \<le> w" by (simp add: w(1))
  have "0 \<le> rd (w * m)" using assms(2,3) by (intro rd_nonneg) simp
  then have "\<bar>rd (w * m)\<bar> < overflow_threshold" using hi w(2) by simp
  then show "js_mul (Num w) (Num m) = Num (rd (w * m))" by (simp add: fl_finite)
  show "w / 2 \<le> rd (w * m)" if "2 powi (- 1021) \<le> w"
    using lo rd_half_normal [OF w(1) that] by simp
  show "rd (w * m) = 0" if "w = 0" using that by simp
qed

text \<open>
  C10, on doubles. Let the latest composite score \<open>s\<close> of the user be a double in
  \<open>[0, 1]\<close> and the base weight \<open>w\<close> a finite non-negative double. Then
  \<open>calculateSybilWeightedVote\<close> returns the multiplier \<open>m\<close>, the double sum of 0.5 and the
  double product \<open>0.5 * s\<close>, which lies in \<open>[0.5, 1]\<close> within \<open>2^-53\<close> of \<open>0.5 + 0.5 * s\<close>,
  and the final weight \<open>fw\<close>, the double product of \<open>w\<close> and \<open>m\<close>, within
  \<open>w / 2^53 + 2^-1075\<close> of \<open>w * m\<close>. The final weight is at most \<open>w\<close> and at least the
  double \<open>w / 2\<close> (at least \<open>w / 2\<close> itself when \<open>w \<ge> 2^-1021\<close>), is 0 when \<open>w = 0\<close>, does
  not decrease when the score grows, and depends on \<open>s\<close> and \<open>w\<close> only (whatever the
  lookup and the user).
\<close>

theorem calculateSybilWeightedVote_spec:
  assumes "g u = Some sc" and "g' u' = Some sc'"
    and "compositeScore sc = Num s" and "compositeScore sc' = Num s'"
    and "is_double s" and "is_double s'" and "0 \<le> s" and "s \<le> s'" and "s' \<le> 1"
    and "is_double w" and "0 \<le> w"
  shows "\<exists>r r' m fw fw'. calculateSybilWeightedVote g u (Num w) = Some r
      \<and> calculateSybilWeightedVote g' u' (Num w) = Some r'
      \<and> multiplier r = Num m
      \<and> js_add (Num (1 / 2)) (js_mul (Num (1 / 2)) (Num s)) = Num m
      \<and> 1 / 2 \<le> m \<and> m \<le> 1 \<and> \<bar>m - (1 / 2 + 1 / 2 * s)\<bar> \<le> 1 / 2 ^ 53
      \<and> finalWeight r = Num fw \<and> js_mul (Num w) (Num m) = Num fw
      \<and> \<bar>fw - w * m\<bar> \<le> w / 2 ^ 53 + 1 / 2 ^ 1075
      \<and> fw \<le> w \<and> (1 / 2 ^ 1021 \<le> w \<longrightarrow> w / 2 \<le> fw)
      \<and> (\<forall>h. js_div (Num w) (Num 2) = Num h \<longrightarrow> h \<le> fw)
      \<and> finalWeight r' = Num fw' \<and> fw \<le> fw'
      \<and> (s = s' \<longrightarrow> multiplier r = multiplier r' \<and> finalWeight r = finalWeight r')
      \<and> (w = 0 \<longrightarrow> fw = 0)"
proof -
  have s: "rd s = s" "rd s' = s'" "0 \<le> s'" "s \<le> 1"
    using assms(5-9) by (simp_all add: is_double_iff)
  define m where "m = rd (1 / 2 + rd (s / 2))"
  define m' where "m' = rd (1 / 2 + rd (s' / 2))"
  note M = multiplier_unit [OF assms(7) s(4) s(1), folded m_def]
  note M' = multiplier_unit [OF s(3) assms(9) s(2), folded m'_def]
  note W = finalWeight_bounds [OF assms(10,11) M(2,3)]
  note W' = finalWeight_bounds [OF assms(10,11) M'(2,3)]
  define fw where "fw = rd (w * m)"
  define fw' where "fw' = rd (w * m')"
  have "rd (s / 2) \<le> rd (s' / 2)" using assms(8) by (intro rd_mono) simp
  then have mm: "m \<le> m'" unfolding m_def m'_def by (intro rd_mono) simp
  then have "w * m \<le> w * m'" using assms(11) by (intro mult_left_mono)
  then have ff: "fw \<le> fw'" unfolding fw_def fw'_def by (rule rd_mono)
  have r: "calculateSybilWeightedVote g u (Num w) =
      Some \<lparr>w_userId = u, baseWeight = Num w, sybilScore = Num s, multiplier = Num m,
            finalWeight = Num fw\<rparr>"
    using M(1) W(1) by (simp add: calculateSybilWeightedVote_def assms(1,3) Let_def fw_def)
  have r': "calculateSybilWeightedVote g' u' (Num w) =
      Some \<lparr>w_userId = u', baseWeight = Num w, sybilScore = Num s', multiplier = Num m',
            finalWeight = Num fw'\<rparr>"
    using M'(1) W'(1) by (simp add: calculateSybilWeightedVote_def assms(2,4) Let_def fw'_def)
  have half: "\<forall>h. js_div (Num w) (Num 2) = Num h \<longrightarrow> h \<le> fw"
    using W(2) by (auto simp add: fl_Num_iff fw_def)
  have "0 \<le> w * m" using assms(11) M(2) by simp
  then have "\<bar>fw - w * m\<bar> \<le> w * m / 2 ^ 53 + 2 powi (- 1075)"
    unfolding fw_def by (rule rd_rel_error)
  moreover have "w * m / 2 ^ 53 \<le> w * 1 / 2 ^ 53"
    using assms(11) M(3) by (intro divide_right_mono mult_left_mono) simp_all
  moreover have "(2::rat) powi (- 1075) = 1 / 2 ^ 1075" by (simp add: power_int_minus_divide)
  ultimately have err: "\<bar>fw - w * m\<bar> \<le> w / 2 ^ 53 + 1 / 2 ^ 1075" by simp
  have zero: "w = 0 \<longrightarrow> fw = 0" by (simp add: fw_def)
  have same: "s = s' \<longrightarrow> m = m' \<and> fw = fw'" by (simp add: m_def m'_def fw_def fw'_def)
  have norm: "1 / 2 ^ 1021 \<le> w \<longrightarrow> w / 2 \<le> fw"
    using W(4) by (simp add: fw_def power_int_minus_divide)
  show ?thesis
    apply (rule exI [of _ "\<lparr>w_userId = u, baseWeight = Num w, sybilScore = Num s,
        multiplier = Num m, finalWeight = Num fw\<rparr>"])
    apply (rule exI [of _ "\<lparr>w_userId = u', baseWeight = Num w, sybilScore = Num s',
        multiplier = Num m', finalWeight = Num fw'\<rparr>"])
    apply (rule exI [of _ m])
    apply (rule exI [of _ fw])
    apply (rule exI [of _ fw'])
    using r r' M(1,2,3,5) W(1,3) ff half err same norm zero
    apply (simp add: fw_def [symmetric])
    done
qed

lemma fl_half_08: "fl (3602879701896397 / 9007199254740992) = Num (3602879701896397 / 9007199254740992)"
  by (rule fl_eval [where k = "- 2" and n = 7205759403792794]) (simp_all add: overflow_threshold_def)

lemma fl_half_plus_04: "fl (8106479329266893 / 9007199254740992) = Num (8106479329266893 / 9007199254740992)"
  by (rule fl_eval [where k = "- 1" and n = 8106479329266893]) (simp_all add: overflow_threshold_def)

lemma fl_100_09: "fl (202661983231672325 / 2251799813685248) = Num (90)"
  by (rule fl_eval [where k = "6" and n = 6333186975989760]) (simp_all add: overflow_threshold_def)

lemma fl_3_8: "fl (3 / 8) = Num (3 / 8)"
  by (rule fl_eval [where k = "- 2" and n = 6755399441055744]) (simp_all add: overflow_threshold_def)

lemma fl_7_8: "fl (7 / 8) = Num (7 / 8)"
  by (rule fl_eval [where k = "- 1" and n = 7881299347898368]) (simp_all add: overflow_threshold_def)

lemma fl_w_7_8: "fl (63050394783186937 / 8) = Num (7881299347898367)"
  by (rule fl_eval [where k = "52" and n = 7881299347898367]) (simp_all add: overflow_threshold_def)

lemma fl_tiny_half: "fl (1 / 404804506614621236704990693437834614099113299528284236713802716054860679135990693783920767402874248990374155728633623822779617474771586953734026799881477019843034848553132722728933815484186432682479535356945490137124014966849385397236206711298319112681620113024717539104666829230461005064372655017292012526615415482186989568) = Num (0)"
  by (rule fl_eval_tie [where k = "- 1075" and n = 0]) (simp_all add: overflow_threshold_def)

lemma fl_half [simp]: "fl (1 / 2) = Num (1 / 2)"
  by (simp add: fl_def overflow_threshold_def)

lemma is_double_four_fifths: "is_double (3602879701896397 / 2 ^ 52)"
  using is_double_grid [of 3602879701896397 "- 52"] by simp

text \<open>
  The theorem on the repository's tests: the score 0.8 and the base weight 100 give the
  multiplier 0.9 (as doubles) and the final weight 90, and the score 1 gives the final
  weight 100.
\<close>

theorem calculateSybilWeightedVote_spec_witness:
  "(\<lambda>u. Some (score (3602879701896397 / 2 ^ 52))) ''user-1''
     = Some (score (3602879701896397 / 2 ^ 52))
   \<and> (\<lambda>u. Some (score 1)) ''user-3'' = Some (score 1)
   \<and> compositeScore (score (3602879701896397 / 2 ^ 52)) = Num (3602879701896397 / 2 ^ 52)
   \<and> compositeScore (score 1) = Num 1
   \<and> is_double (3602879701896397 / 2 ^ 52) \<and> is_double 1
   \<and> (0::rat) \<le> 3602879701896397 / 2 ^ 52 \<and> (3602879701896397 / 2 ^ 52 :: rat) \<le> 1
   \<and> (1::rat) \<le> 1 \<and> is_double 100 \<and> (0::rat) \<le> 100
   \<and> (\<exists>r r'. calculateSybilWeightedVote (\<lambda>u. Some (score (3602879701896397 / 2 ^ 52)))
                  ''user-1'' (Num 100) = Some r
       \<and> calculateSybilWeightedVote (\<lambda>u. Some (score 1)) ''user-3'' (Num 100) = Some r'
       \<and> multiplier r = Num (8106479329266893 / 2 ^ 53)
       \<and> finalWeight r = Num 90 \<and> finalWeight r' = Num 100)"
proof -
  let ?s = "3602879701896397 / 2 ^ 52 :: rat"
  have d: "is_double ?s" "is_double 1" "is_double 100"
    using is_double_four_fifths by simp_all
  have c: "compositeScore (score ?s) = Num ?s" "compositeScore (score 1) = Num 1"
    by (simp_all add: score_def)
  have b: "0 \<le> ?s" "?s \<le> 1" "(1::rat) \<le> 1" "(0::rat) \<le> 100" by simp_all
  from calculateSybilWeightedVote_spec [of "\<lambda>u. Some (score ?s)" "''user-1''" "score ?s"
      "\<lambda>u. Some (score 1)" "''user-3''" "score 1" ?s 1 100, OF refl refl c d(1,2) b(1,2,3) d(3) b(4)]
  obtain r r' m fw fw' where
    h: "calculateSybilWeightedVote (\<lambda>u. Some (score ?s)) ''user-1'' (Num 100) = Some r"
      "calculateSybilWeightedVote (\<lambda>u. Some (score 1)) ''user-3'' (Num 100) = Some r'"
      "multiplier r = Num m"
      "js_add (Num (1 / 2)) (js_mul (Num (1 / 2)) (Num ?s)) = Num m"
      "finalWeight r = Num fw" "js_mul (Num 100) (Num m) = Num fw"
    by blast
  have m: "m = 8106479329266893 / 2 ^ 53" using h(4) by (simp add: fl_half_08 fl_half_plus_04)
  have fw: "fw = 90" using h(6) unfolding m by (simp add: fl_100_09)
  have "finalWeight r' = Num 100"
    using h(2) by (auto simp add: calculateSybilWeightedVote_def score_def fl_numeral Let_def)
  then show ?thesis using d c h(1,2,3,5) unfolding m fw by simp
qed

text \<open>
  C10 as stated fails on two counts. With \<open>w = 2^53 - 1\<close> and \<open>s = 0.75\<close> the multiplier
  is 0.875 and the final weight 7881299347898367, not the product
  \<open>7881299347898367.125\<close>. And with \<open>w = 2^-1074\<close>, the least positive double, and
  \<open>s = 0\<close>, the product \<open>2^-1075\<close> is rounded to 0: the final weight is 0, below
  \<open>w / 2\<close>.
\<close>

theorem calculateSybilWeightedVote_rounding_counterexample:
  "is_double 9007199254740991 \<and> is_double (3 / 4) \<and> is_double 0 \<and> is_double (1 / 2 ^ 1074)
   \<and> calculateSybilWeightedVote (\<lambda>u. Some (score (3 / 4))) ''u'' (Num 9007199254740991)
       = Some \<lparr>w_userId = ''u'', baseWeight = Num 9007199254740991, sybilScore = Num (3 / 4),
               multiplier = Num (7 / 8), finalWeight = Num 7881299347898367\<rparr>
   \<and> (9007199254740991 * (1 / 2 + 1 / 2 * (3 / 4)) :: rat) = 7881299347898367 + 1 / 8
   \<and> calculateSybilWeightedVote (\<lambda>u. Some (score 0)) ''u'' (Num (1 / 2 ^ 1074))
       = Some \<lparr>w_userId = ''u'', baseWeight = Num (1 / 2 ^ 1074), sybilScore = Num 0,
               multiplier = Num (1 / 2), finalWeight = Num 0\<rparr>
   \<and> (0::rat) < 1 / 2 ^ 1074 / 2"
proof -
  have "is_double (3 / 4)" using is_double_grid [of 3 "- 2"] by simp
  moreover have "is_double (1 / 2 ^ 1074)" using is_double_grid [of 1 "- 1074"] by simp
  ultimately show ?thesis
    by (simp add: calculateSybilWeightedVote_def score_def fl_numeral fl_3_8 fl_7_8 fl_w_7_8
        fl_tiny_half)
qed

section \<open>Reward synchronisation: results\<close>




lemma processRewardClaim_existing:
  assumes "find (\<lambda>r. claim_key r = (dto_txHash e, dto_logIndex e)) (reward_claims st) = Some row"
  shows "processRewardClaim e st =
           (Inr row, st\<lparr>logs := logs st @ [Warn_DuplicateClaim (dto_txHash e) (dto_logIndex e)]\<rparr>)"
  using assms
  by (simp add: processRewardClaim_def claim_findByTxHashAndLogIndex_def claim_key_def)

lemma processRewardClaim_new:
  assumes "find (\<lambda>r. claim_key r = (dto_txHash e, dto_logIndex e)) (reward_claims st) = None"
  shows "\<exists>row. fst (processRewardClaim e st) = Inr row
     \<and> claim_key row = (dto_txHash e, dto_logIndex e)
     \<and> reward_claims (snd (processRewardClaim e st)) = reward_claims st @ [row]"
proof -
  have "\<not> (\<exists>r \<in> set (reward_claims st). rc_txHash r = dto_txHash e \<and> rc_logIndex r = dto_logIndex e)"
    using assms by (simp add: find_None_iff claim_key_def)
  then show ?thesis
    using assms
    by (simp add: processRewardClaim_def claim_findByTxHashAndLogIndex_def claim_key_def
        claim_create_def Let_def)
qed



lemma processRewardClaim_distinct:
  assumes "distinct (map claim_key (reward_claims st))"
  shows "distinct (map claim_key (reward_claims (snd (processRewardClaim e st))))"
proof (cases "find (\<lambda>r. claim_key r = (dto_txHash e, dto_logIndex e)) (reward_claims st)")
  case None
  obtain row where r: "claim_key row = (dto_txHash e, dto_logIndex e)"
      "reward_claims (snd (processRewardClaim e st)) = reward_claims st @ [row]"
    using processRewardClaim_new [OF None] by blast
  have "\<forall>x \<in> set (reward_claims st). claim_key x \<noteq> (dto_txHash e, dto_logIndex e)"
    using None by (simp add: find_None_iff)
  then have "claim_key row \<notin> claim_key ` set (reward_claims st)" using r(1) by force
  then show ?thesis using assms r(2) by simp
next
  case (Some row)
  then show ?thesis using processRewardClaim_existing [OF Some] assms by simp
qed



section \<open>The listener: results\<close>

























section \<open>The idempotent indexer: results\<close>

lemma processEvent_cases:
  "processEvent numeric ev db =
     (if already_processed ev db then (None, db)
      else if ev_eventType ev = ''Transfer'' \<and> numeric (td_amount (ev_data ev)) = None
      then (Some InvalidNumeric, db\<lparr>processed_events_id_seq := processed_events_id_seq db + 1\<rparr>)
      else (None,
            db\<lparr>processed_events := processed_events db @
                  [\<lparr>pe_id = processed_events_id_seq db, tx_hash = ev_txHash ev,
                    log_index = ev_logIndex ev, block_number = ev_blockNumber ev,
                    event_type = ev_eventType ev\<rparr>],
               processed_events_id_seq := processed_events_id_seq db + 1,
               token_balances :=
                 (if ev_eventType ev = ''Transfer''
                  then (case updateBalances numeric (ev_data ev) (token_balances db) of
                          Inr b \<Rightarrow> b | Inl e \<Rightarrow> token_balances db)
                  else token_balances db),
               last_block := map_option (\<lambda>b. max b (ev_blockNumber ev)) (last_block db)\<rparr>))"
  by (auto simp: processEvent_def insert_processed_event_def updateBalances_def Let_def
      split: option.splits)

lemma processEvent_failure_iff:
  "fst (processEvent numeric ev db) \<noteq> None \<longleftrightarrow>
     \<not> already_processed ev db \<and> ev_eventType ev = ''Transfer''
     \<and> numeric (td_amount (ev_data ev)) = None"
  by (simp add: processEvent_cases)

text \<open>
  C2, as amended. With a checkpoint row present, a call of \<open>processEvent\<close> leaves the
  checkpoint's \<open>last_block\<close> at \<open>max(last_block, blockNumber)\<close> when it records the event,
  and leaves the checkpoint and both tables as they were when the event is a duplicate or
  its processing fails. So \<open>last_block\<close> never decreases, and it stays at or above the
  block number of every recorded event once it is so: it is the highest block recorded,
  not the end of a prefix without gaps.
\<close>

theorem processEvent_checkpoint:
  assumes "last_block db = Some c"
  shows "(already_processed ev db \<longrightarrow> processEvent numeric ev db = (None, db))
    \<and> (fst (processEvent numeric ev db) \<noteq> None \<longrightarrow>
          processed_events (snd (processEvent numeric ev db)) = processed_events db
          \<and> token_balances (snd (processEvent numeric ev db)) = token_balances db
          \<and> last_block (snd (processEvent numeric ev db)) = Some c)
    \<and> (\<not> already_processed ev db \<and> fst (processEvent numeric ev db) = None \<longrightarrow>
          last_block (snd (processEvent numeric ev db)) = Some (max c (ev_blockNumber ev))
          \<and> (\<exists>row. processed_events (snd (processEvent numeric ev db)) =
                       processed_events db @ [row]
                \<and> tx_hash row = ev_txHash ev \<and> log_index row = ev_logIndex ev
                \<and> block_number row = ev_blockNumber ev))
    \<and> (\<exists>c'. last_block (snd (processEvent numeric ev db)) = Some c' \<and> c \<le> c'
          \<and> ((\<forall>r \<in> set (processed_events db). block_number r \<le> c) \<longrightarrow>
               (\<forall>r \<in> set (processed_events (snd (processEvent numeric ev db))).
                  block_number r \<le> c')))"
  using assms by (auto simp: processEvent_cases)

text \<open>
  The theorem on the checkpoint at block 99 and the transfer of block 101: the event is
  recorded and the checkpoint moves to 101.
\<close>

theorem processEvent_checkpoint_witness:
  "last_block db_at_99 = Some 99
   \<and> \<not> already_processed transfer_101 db_at_99
   \<and> fst (processEvent plain_numeric transfer_101 db_at_99) = None
   \<and> last_block (snd (processEvent plain_numeric transfer_101 db_at_99)) = Some 101"
proof -
  have h: "last_block db_at_99 = Some 99" by (simp add: db_at_99_def)
  have a: "\<not> already_processed transfer_101 db_at_99"
    by (simp add: already_processed_def db_at_99_def)
  have b: "fst (processEvent plain_numeric transfer_101 db_at_99) = None" by code_simp
  have "last_block (snd (processEvent plain_numeric transfer_101 db_at_99)) =
      Some (max 99 (ev_blockNumber transfer_101))"
    using processEvent_checkpoint [OF h, of transfer_101 plain_numeric] a b by simp
  then show ?thesis using h a b by (simp add: transfer_101_def)
qed

text \<open>
  C2 as stated fails: from the checkpoint at block 99, the transfer of block 100 fails to
  apply (its amount is not a number) and is rolled back, the transfer of block 101 then
  succeeds, and \<open>last_block\<close> is 101 although only the event of block 101 is recorded.
\<close>

theorem processEvent_gap_counterexample:
  "fst (processEvent plain_numeric transfer_100_bad db_at_99) = Some InvalidNumeric
   \<and> fst (processEvent plain_numeric transfer_101
        (snd (processEvent plain_numeric transfer_100_bad db_at_99))) = None
   \<and> last_block (snd (processEvent plain_numeric transfer_101
        (snd (processEvent plain_numeric transfer_100_bad db_at_99)))) = Some 101
   \<and> map block_number (processed_events (snd (processEvent plain_numeric transfer_101
        (snd (processEvent plain_numeric transfer_100_bad db_at_99))))) = [101]"
  by code_simp

lemma processEvents_append:
  "processEvents numeric (xs @ ys) db =
     (case processEvents numeric xs db of
        (Some e, db') \<Rightarrow> (Some e, db')
      | (None, db') \<Rightarrow> processEvents numeric ys db')"
proof (induction xs arbitrary: db)
  case Nil
  then show ?case by simp
next
  case (Cons x xs)
  obtain r db1 where p: "processEvent numeric x db = (r, db1)"
    by (cases "processEvent numeric x db")
  show ?case using Cons.IH [of db1] p by (cases r) simp_all
qed

text \<open>The events of the \<open>n\<close> blocks from \<open>b\<close> on, in the order the replay meets them.\<close>

lemma blocks_Suc:
  "concat (map (\<lambda>k. fetch (b + int k)) [0..<Suc n]) =
     fetch b @ concat (map (\<lambda>k. fetch ((b + 1) + int k)) [0..<n])"
proof -
  have "[0..<Suc n] = 0 # map Suc [0..<n]" by (simp add: upt_conv_Cons map_Suc_upt del: upt_Suc)
  moreover have "(\<lambda>k. fetch (b + int (Suc k))) = (\<lambda>k. fetch ((b + 1) + int k))"
    by (rule ext, rule arg_cong [where f = fetch]) simp
  ultimately show ?thesis by (simp add: comp_def del: upt_Suc)
qed

lemma replay_loop_result:
  assumes "\<forall>k<n. fetch (b + int k) \<noteq> []"
    and "fetch (b + int n) = []
         \<or> fst (processEvents numeric (concat (map (\<lambda>k. fetch (b + int k)) [0..<n])) db) \<noteq> None"
  shows "replay_loop numeric fetch b db =
     Some (processEvents numeric (concat (map (\<lambda>k. fetch (b + int k)) [0..<n])) db)"
  using assms
proof (induction n arbitrary: b db)
  case 0
  then show ?case by (simp add: replay_loop.simps [of numeric fetch b db])
next
  case (Suc n)
  have ne: "fetch b \<noteq> []" using Suc.prems(1) by (auto dest: spec [of _ 0])
  obtain r db1 where p: "processEvents numeric (fetch b) db = (r, db1)"
    by (cases "processEvents numeric (fetch b) db")
  let ?rest = "concat (map (\<lambda>k. fetch ((b + 1) + int k)) [0..<n])"
  show ?case
  proof (cases r)
    case (Some e)
    then show ?thesis
      using ne p
      by (simp add: replay_loop.simps [of numeric fetch b db] blocks_Suc processEvents_append
          del: upt_Suc)
  next
    case None
    have 1: "\<forall>k<n. fetch ((b + 1) + int k) \<noteq> []"
    proof (intro allI impI)
      fix k assume "k < n"
      then have "Suc k < Suc n" by simp
      then have "fetch (b + int (Suc k)) \<noteq> []" using Suc.prems(1) by blast
      then show "fetch ((b + 1) + int k) \<noteq> []" by (simp add: add.assoc)
    qed
    have e: "b + int (Suc n) = (b + 1) + int n" by simp
    have 2: "fetch ((b + 1) + int n) = [] \<or> fst (processEvents numeric ?rest db1) \<noteq> None"
      using Suc.prems(2) p None unfolding e
      by (simp add: blocks_Suc processEvents_append del: upt_Suc)
    have "replay_loop numeric fetch (b + 1) db1 = Some (processEvents numeric ?rest db1)"
      using Suc.IH [OF 1 2] .
    then show ?thesis
      using ne p None
      by (simp add: replay_loop.simps [of numeric fetch b db] blocks_Suc processEvents_append
          del: upt_Suc)
  qed
qed

lemma replay_loop_only:
  assumes "replay_loop numeric fetch b db = Some res"
  shows "\<exists>n. (\<forall>k<n. fetch (b + int k) \<noteq> [])
            \<and> (fetch (b + int n) = [] \<or> fst res \<noteq> None)
            \<and> res = processEvents numeric (concat (map (\<lambda>k. fetch (b + int k)) [0..<n])) db"
proof (rule replay_loop.raw_induct
    [where P = "\<lambda>numeric fetch b db res. \<exists>n. (\<forall>k<n. fetch (b + int k) \<noteq> [])
            \<and> (fetch (b + int n) = [] \<or> fst res \<noteq> None)
            \<and> res = processEvents numeric (concat (map (\<lambda>k. fetch (b + int k)) [0..<n])) db",
      OF _ assms])
  fix loop :: "(string \<Rightarrow> number option) \<Rightarrow> (int \<Rightarrow> BlockchainEvent list) \<Rightarrow> int \<Rightarrow> IndexerDb
     \<Rightarrow> (error option \<times> IndexerDb) option"
  fix numeric fetch b db res
  assume IH: "\<And>numeric fetch b db res. loop numeric fetch b db = Some res \<Longrightarrow>
      \<exists>n. (\<forall>k<n. fetch (b + int k) \<noteq> [])
            \<and> (fetch (b + int n) = [] \<or> fst res \<noteq> None)
            \<and> res = processEvents numeric (concat (map (\<lambda>k. fetch (b + int k)) [0..<n])) db"
  assume step: "(if length (fetch b) = 0 then Some (None, db)
      else case processEvents numeric (fetch b) db of
             (None, db') \<Rightarrow> loop numeric fetch (b + 1) db'
           | (Some e, db') \<Rightarrow> Some (Some e, db')) = Some res"
  let ?P = "\<lambda>n. (\<forall>k<n. fetch (b + int k) \<noteq> [])
            \<and> (fetch (b + int n) = [] \<or> fst res \<noteq> None)
            \<and> res = processEvents numeric (concat (map (\<lambda>k. fetch (b + int k)) [0..<n])) db"
  show "\<exists>n. ?P n"
  proof (cases "length (fetch b) = 0")
    case True
    then have "?P 0" using step by auto
    then show ?thesis ..
  next
    case False
    then have ne: "fetch b \<noteq> []" by simp
    obtain r db1 where p: "processEvents numeric (fetch b) db = (r, db1)"
      by (cases "processEvents numeric (fetch b) db")
    show ?thesis
    proof (cases r)
      case (Some e)
      then have res: "res = (Some e, db1)" using step False p by simp
      have "?P (Suc 0)" using ne p Some res by simp
      then show ?thesis ..
    next
      case None
      then have "loop numeric fetch (b + 1) db1 = Some res" using step False p by simp
      from IH [OF this] obtain n where
        n: "\<forall>k<n. fetch ((b + 1) + int k) \<noteq> []"
          "fetch ((b + 1) + int n) = [] \<or> fst res \<noteq> None"
          "res = processEvents numeric (concat (map (\<lambda>k. fetch ((b + 1) + int k)) [0..<n])) db1"
        by blast
      have a: "\<forall>k<Suc n. fetch (b + int k) \<noteq> []"
      proof (intro allI impI)
        fix k assume k: "k < Suc n"
        show "fetch (b + int k) \<noteq> []"
        proof (cases k)
          case 0
          then show ?thesis using ne by simp
        next
          case (Suc j)
          then have "fetch ((b + 1) + int j) \<noteq> []" using n(1) k by simp
          moreover have "(b + 1) + int j = b + int k" using Suc by simp
          ultimately show ?thesis by simp
        qed
      qed
      have e: "b + int (Suc n) = (b + 1) + int n" by simp
      have b: "fetch (b + int (Suc n)) = [] \<or> fst res \<noteq> None" unfolding e by (rule n(2))
      have c: "res = processEvents numeric (concat (map (\<lambda>k. fetch (b + int k)) [0..<Suc n])) db"
        using n(3) p None by (simp add: blocks_Suc processEvents_append del: upt_Suc)
      have "?P (Suc n)" using a b c by (intro conjI)
      then show ?thesis ..
    qed
  qed
qed

lemma processEvent_records:
  "\<exists>new. processed_events (snd (processEvent numeric ev db)) = processed_events db @ new
     \<and> (\<forall>r \<in> set new. row_of ev r)
     \<and> (fst (processEvent numeric ev db) = None \<longrightarrow>
           already_processed ev (snd (processEvent numeric ev db)))"
  by (auto simp add: processEvent_cases row_of_def already_processed_def)

lemma already_processed_mono:
  "already_processed ev db \<Longrightarrow> processed_events db' = processed_events db @ new \<Longrightarrow>
     already_processed ev db'"
  by (auto simp add: already_processed_def)

lemma processEvents_records:
  "\<exists>new. processed_events (snd (processEvents numeric evs db)) = processed_events db @ new
     \<and> (\<forall>r \<in> set new. \<exists>ev \<in> set evs. row_of ev r)
     \<and> (fst (processEvents numeric evs db) = None \<longrightarrow>
           (\<forall>ev \<in> set evs. already_processed ev (snd (processEvents numeric evs db))))"
proof (induction evs arbitrary: db)
  case Nil
  then show ?case by simp
next
  case (Cons ev evs)
  obtain r db1 where p: "processEvent numeric ev db = (r, db1)"
    by (cases "processEvent numeric ev db")
  from processEvent_records [of numeric ev db] p obtain n1 where
    n1: "processed_events db1 = processed_events db @ n1" "\<forall>r \<in> set n1. row_of ev r"
      "r = None \<longrightarrow> already_processed ev db1"
    by auto
  show ?case
  proof (cases r)
    case (Some e)
    then show ?thesis using p n1 by auto
  next
    case None
    from Cons.IH [of db1] obtain n2 where
      n2c: "processed_events (snd (processEvents numeric evs db1)) = processed_events db1 @ n2
        \<and> (\<forall>r \<in> set n2. \<exists>ev \<in> set evs. row_of ev r)
        \<and> (fst (processEvents numeric evs db1) = None \<longrightarrow>
           (\<forall>ev \<in> set evs. already_processed ev (snd (processEvents numeric evs db1))))" ..
    note n2 = n2c [THEN conjunct1] n2c [THEN conjunct2, THEN conjunct1]
      n2c [THEN conjunct2, THEN conjunct2]
    have res: "processEvents numeric (ev # evs) db = processEvents numeric evs db1"
      using p None by simp
    have a: "processed_events (snd (processEvents numeric (ev # evs) db)) =
        processed_events db @ (n1 @ n2)"
      using n1(1) n2(1) unfolding res by simp
    have b: "\<forall>r \<in> set (n1 @ n2). \<exists>ev' \<in> set (ev # evs). row_of ev' r"
      using n1(2) n2(2) by auto
    have c: "fst (processEvents numeric (ev # evs) db) = None \<longrightarrow>
        (\<forall>ev' \<in> set (ev # evs). already_processed ev' (snd (processEvents numeric (ev # evs) db)))"
      using n1(3) None n2(3) already_processed_mono [OF _ n2(1), of ev] unfolding res by auto
    show ?thesis by (rule exI [of _ "n1 @ n2"]) (intro conjI a b c)
  qed
qed

text \<open>
  C4, as amended. \<open>replayFromBlock\<close> has no guard and rejects no request. Its first step
  deletes exactly the \<open>processed_events\<close> rows with \<open>block_number \<ge> startBlock\<close>, whatever
  their standing, and touches nothing else. The replay then processes the events of the
  blocks \<open>startBlock\<close>, \<open>startBlock + 1\<close>, ... in order. It returns at the first block that
  holds no event, or at the first error that \<open>processEvent\<close> throws, with the state that
  processing the events of the blocks before has produced; and it returns in no other
  way. When it returns, every row below \<open>startBlock\<close> is still in the table, unchanged
  and in place, followed by rows that each record a replayed event; and when no error was
  thrown, every replayed event is recorded.
\<close>

theorem replayFromBlock_deletes:
  "processed_events (deleteFrom s db) = filter (\<lambda>r. block_number r < s) (processed_events db)
   \<and> token_balances (deleteFrom s db) = token_balances db
   \<and> last_block (deleteFrom s db) = last_block db
   \<and> processed_events_id_seq (deleteFrom s db) = processed_events_id_seq db
   \<and> ((\<forall>k<n. fetch (s + int k) \<noteq> [])
        \<and> (fetch (s + int n) = []
            \<or> fst (processEvents numeric (replayed fetch s n) (deleteFrom s db)) \<noteq> None) \<longrightarrow>
        replayFromBlock numeric fetch s db =
          Some (processEvents numeric (replayed fetch s n) (deleteFrom s db)))
   \<and> (replayFromBlock numeric fetch s db = Some res \<longrightarrow>
        (\<exists>m new. (\<forall>k<m. fetch (s + int k) \<noteq> [])
           \<and> (fetch (s + int m) = [] \<or> fst res \<noteq> None)
           \<and> res = processEvents numeric (replayed fetch s m) (deleteFrom s db)
           \<and> processed_events (snd res) =
               filter (\<lambda>r. block_number r < s) (processed_events db) @ new
           \<and> (\<forall>r \<in> set new. \<exists>ev \<in> set (replayed fetch s m). row_of ev r)
           \<and> (fst res = None \<longrightarrow>
                 (\<forall>ev \<in> set (replayed fetch s m). already_processed ev (snd res)))))"
proof -
  have f: "(\<lambda>r. \<not> s \<le> block_number r) = (\<lambda>r. block_number r < s)" by auto
  have a: "processed_events (deleteFrom s db) = filter (\<lambda>r. block_number r < s) (processed_events db)"
    by (simp add: deleteFrom_def f)
  have a': "token_balances (deleteFrom s db) = token_balances db"
    "last_block (deleteFrom s db) = last_block db"
    "processed_events_id_seq (deleteFrom s db) = processed_events_id_seq db"
    by (simp_all add: deleteFrom_def)
  have b: "(\<forall>k<n. fetch (s + int k) \<noteq> [])
        \<and> (fetch (s + int n) = []
            \<or> fst (processEvents numeric (replayed fetch s n) (deleteFrom s db)) \<noteq> None) \<longrightarrow>
        replayFromBlock numeric fetch s db =
          Some (processEvents numeric (replayed fetch s n) (deleteFrom s db))"
    unfolding replayFromBlock_def replayed_def
    using replay_loop_result [of n fetch s numeric "deleteFrom s db"] by simp
  have c: "\<exists>m new. (\<forall>k<m. fetch (s + int k) \<noteq> [])
           \<and> (fetch (s + int m) = [] \<or> fst res \<noteq> None)
           \<and> res = processEvents numeric (replayed fetch s m) (deleteFrom s db)
           \<and> processed_events (snd res) =
               filter (\<lambda>r. block_number r < s) (processed_events db) @ new
           \<and> (\<forall>r \<in> set new. \<exists>ev \<in> set (replayed fetch s m). row_of ev r)
           \<and> (fst res = None \<longrightarrow>
                 (\<forall>ev \<in> set (replayed fetch s m). already_processed ev (snd res)))"
    if r: "replayFromBlock numeric fetch s db = Some res"
  proof -
    from replay_loop_only [OF r [unfolded replayFromBlock_def]] obtain m where
      mc: "(\<forall>k<m. fetch (s + int k) \<noteq> [])
          \<and> (fetch (s + int m) = [] \<or> fst res \<noteq> None)
          \<and> res = processEvents numeric (concat (map (\<lambda>k. fetch (s + int k)) [0..<m]))
                    (deleteFrom s db)" ..
    note m = mc [THEN conjunct1] mc [THEN conjunct2, THEN conjunct1]
      mc [THEN conjunct2, THEN conjunct2, folded replayed_def]
    from processEvents_records [of numeric "replayed fetch s m" "deleteFrom s db"]
    obtain new where
      nc: "processed_events (snd (processEvents numeric (replayed fetch s m) (deleteFrom s db)))
            = processed_events (deleteFrom s db) @ new
        \<and> (\<forall>r \<in> set new. \<exists>ev \<in> set (replayed fetch s m). row_of ev r)
        \<and> (fst (processEvents numeric (replayed fetch s m) (deleteFrom s db)) = None \<longrightarrow>
             (\<forall>ev \<in> set (replayed fetch s m).
                already_processed ev
                  (snd (processEvents numeric (replayed fetch s m) (deleteFrom s db)))))" ..
    note n = nc [THEN conjunct1, folded m(3), unfolded a]
      nc [THEN conjunct2, THEN conjunct1]
      nc [THEN conjunct2, THEN conjunct2, folded m(3)]
    show ?thesis
      by (rule exI [of _ m], rule exI [of _ new]) (intro conjI m n)
  qed
  have c': "replayFromBlock numeric fetch s db = Some res \<longrightarrow>
        (\<exists>m new. (\<forall>k<m. fetch (s + int k) \<noteq> [])
           \<and> (fetch (s + int m) = [] \<or> fst res \<noteq> None)
           \<and> res = processEvents numeric (replayed fetch s m) (deleteFrom s db)
           \<and> processed_events (snd res) =
               filter (\<lambda>r. block_number r < s) (processed_events db) @ new
           \<and> (\<forall>r \<in> set new. \<exists>ev \<in> set (replayed fetch s m). row_of ev r)
           \<and> (fst res = None \<longrightarrow>
                 (\<forall>ev \<in> set (replayed fetch s m). already_processed ev (snd res))))"
    using c by (rule impI)
  show ?thesis
    by (rule conjI [OF a conjI [OF a'(1) conjI [OF a'(2) conjI [OF a'(3) conjI [OF b c']]]]])
qed

text \<open>
  The theorem on a replay from block 3 over the example chain: block 3 holds the
  transfer and block 4 holds no event, so the replay returns after block 3; the row of
  block 2 is kept, the row of block 5 is gone, and the transfer of block 3 is recorded
  anew.
\<close>

theorem replayFromBlock_deletes_witness:
  "chain_3 (3 + int 0) \<noteq> [] \<and> chain_3 (3 + int 1) = []
   \<and> replayed chain_3 3 1 = [transfer_3]
   \<and> replayFromBlock plain_numeric chain_3 3 db_with_5 =
       Some (None,
         \<lparr>processed_events =
            [\<lparr>pe_id = 1, tx_hash = ''0xb2'', log_index = 0, block_number = 2,
               event_type = ''Mint''\<rparr>,
             \<lparr>pe_id = 3, tx_hash = ''0xc3'', log_index = 0, block_number = 3,
               event_type = ''Transfer''\<rparr>],
          token_balances = [], last_block = Some 5, processed_events_id_seq = 4\<rparr>)"
proof -
  have h: "chain_3 (3 + int 0) \<noteq> []" "chain_3 (3 + int 1) = []" by (simp_all add: chain_3_def)
  have h': "\<forall>k<1. chain_3 (3 + int k) \<noteq> []" using h(1) by simp
  have r: "replayed chain_3 3 1 = [transfer_3]" by (simp add: replayed_def chain_3_def)
  have "replayFromBlock plain_numeric chain_3 3 db_with_5 =
      Some (processEvents plain_numeric (replayed chain_3 3 1) (deleteFrom 3 db_with_5))"
    using replayFromBlock_deletes [of 3 db_with_5 1 chain_3 plain_numeric] h' h(2) by blast
  moreover have "processEvents plain_numeric [transfer_3] (deleteFrom 3 db_with_5) =
       (None,
         \<lparr>processed_events =
            [\<lparr>pe_id = 1, tx_hash = ''0xb2'', log_index = 0, block_number = 2,
               event_type = ''Mint''\<rparr>,
             \<lparr>pe_id = 3, tx_hash = ''0xc3'', log_index = 0, block_number = 3,
               event_type = ''Transfer''\<rparr>],
          token_balances = [], last_block = Some 5, processed_events_id_seq = 4\<rparr>)"
    by (simp add: deleteFrom_def db_with_5_def
        transfer_3_def processEvent_cases already_processed_def
        updateBalances_def plain_numeric_def digit_value_def)
  ultimately show ?thesis using h r by simp
qed

text \<open>
  C4 as stated fails: a replay from block 3 of a database that has recorded an event of
  block 5 is not rejected, whatever height counts as finalized; it returns normally and
  the row of block 5 is deleted.
\<close>

theorem replayFromBlock_unguarded_counterexample:
  "replayFromBlock plain_numeric (\<lambda>b. []) 3 db_with_5 =
     Some (None,
       \<lparr>processed_events =
          [\<lparr>pe_id = 1, tx_hash = ''0xb2'', log_index = 0, block_number = 2, event_type = ''Mint''\<rparr>],
        token_balances = [], last_block = Some 5, processed_events_id_seq = 3\<rparr>)"
  by (simp add: replayFromBlock_def replay_loop.simps deleteFrom_def db_with_5_def)

section \<open>The event store of the specification: results\<close>

lemma tx_key_update [simp]:
  "tx_key (e\<lparr>isFinalized := a\<rparr>) = tx_key e"
  "tx_key (e\<lparr>isProcessed := b\<rparr>) = tx_key e"
  "tx_key (e\<lparr>processedAt := c\<rparr>) = tx_key e"
  "tx_key (e\<lparr>retryAttempts := d\<rparr>) = tx_key e"
  "tx_key (e\<lparr>processingError := f\<rparr>) = tx_key e"
  "tx_key (e\<lparr>confirmations := g\<rparr>) = tx_key e"
  by (simp_all add: tx_key_def)

lemma block_key_update [simp]:
  "block_key (e\<lparr>isFinalized := a\<rparr>) = block_key e"
  "block_key (e\<lparr>isProcessed := b\<rparr>) = block_key e"
  "block_key (e\<lparr>processedAt := c\<rparr>) = block_key e"
  "block_key (e\<lparr>retryAttempts := d\<rparr>) = block_key e"
  "block_key (e\<lparr>processingError := f\<rparr>) = block_key e"
  "block_key (e\<lparr>confirmations := g\<rparr>) = block_key e"
  by (simp_all add: block_key_def)

lemma map_keys_same:
  assumes "\<And>e. k (f e) = k e"
  shows "map k (map (\<lambda>e. if P e then f e else e) es) = map k es"
  using assms by (induction es) simp_all

lemma update_row_unique:
  assumes "\<And>e. tx_key (f e) = tx_key e" and "\<And>e. block_key (f e) = block_key e"
    and "both_unique (indexed_events en)"
  shows "both_unique (indexed_events (update_row i f en))"
proof -
  let ?es = "map (\<lambda>e. if ie_id e = i then f e else e) (indexed_events en)"
  have "map tx_key ?es = map tx_key (indexed_events en)"
    by (rule map_keys_same) (rule assms(1))
  moreover have "map block_key ?es = map block_key (indexed_events en)"
    by (rule map_keys_same) (rule assms(2))
  moreover have "indexed_events (update_row i f en) = ?es" by (simp add: update_row_def)
  ultimately show ?thesis using assms(3) by (simp only: both_unique_def)
qed

lemma track_event_keys [simp]:
  "tx_key (track_event H C e) = tx_key e" "block_key (track_event H C e) = block_key e"
  by (simp_all add: track_event_def)

lemma trackConfirmations_unique:
  "both_unique (indexed_events en) \<Longrightarrow> both_unique (indexed_events (trackConfirmations H C en))"
  by (simp add: both_unique_def trackConfirmations_def comp_def)

lemma persist_unique:
  "both_unique (indexed_events en) \<Longrightarrow> both_unique (indexed_events (snd (persist l en)))"
  by (auto simp: both_unique_def persist_def Let_def)

lemma reconcile_unique:
  "both_unique (indexed_events en) \<Longrightarrow> reconcile b en = Some en' \<Longrightarrow>
     both_unique (indexed_events en')"
  by (auto simp: both_unique_def reconcile_def Let_def distinct_map_filter split: if_splits)

lemma apply_op_unique:
  "both_unique (indexed_events en) \<Longrightarrow> both_unique (indexed_events (apply_op op en))"
proof (cases op)
  case (Persist l)
  then show "both_unique (indexed_events en) \<Longrightarrow> ?thesis" by (simp add: persist_unique)
next
  case (TrackConfirmations H C)
  then show "both_unique (indexed_events en) \<Longrightarrow> ?thesis" by (simp add: trackConfirmations_unique)
next
  case (MarkFinalized i)
  then show "both_unique (indexed_events en) \<Longrightarrow> ?thesis"
    by (simp add: markFinalized_def update_row_unique)
next
  case (MarkProcessed i ts)
  then show "both_unique (indexed_events en) \<Longrightarrow> ?thesis"
    by (simp add: markProcessed_def update_row_unique)
next
  case (RecordProcessingFailure i m)
  then show "both_unique (indexed_events en) \<Longrightarrow> ?thesis"
    by (simp add: recordProcessingFailure_def update_row_unique)
next
  case (Reconcile b)
  then show "both_unique (indexed_events en) \<Longrightarrow> ?thesis"
    by (cases "reconcile b en") (simp_all add: reconcile_unique)
qed

lemma run_unique:
  "both_unique (indexed_events en) \<Longrightarrow> both_unique (indexed_events (run ops en))"
  unfolding run_def
  by (induction ops arbitrary: en) (simp_all add: apply_op_unique)

text \<open>
  C7. In the store of the specification, both unique keys hold at all times: after any
  run of operations (persist, confirmation tracking, mark finalized, mark processed,
  record a processing failure, reconcile) from the empty store, no two rows share
  \<open>(transactionHash, logIndex, eventType)\<close> and no two rows share
  \<open>(blockNumber, logIndex)\<close>; every operation preserves both keys; and a persist whose
  row would repeat either key returns \<open>duplicate\<close> and leaves the state untouched, while
  any other persist inserts the row.
\<close>

theorem store_keys_unique:
  "both_unique (indexed_events (run ops (empty_engine st)))
   \<and> (both_unique (indexed_events en) \<longrightarrow> both_unique (indexed_events (apply_op op en)))
   \<and> (tx_key (new_row (next_event_id en) l) \<in> set (map tx_key (indexed_events en))
        \<or> block_key (new_row (next_event_id en) l) \<in> set (map block_key (indexed_events en))
        \<longrightarrow> persist l en = (duplicate, en))
   \<and> (tx_key (new_row (next_event_id en) l) \<notin> set (map tx_key (indexed_events en))
        \<and> block_key (new_row (next_event_id en) l) \<notin> set (map block_key (indexed_events en))
        \<longrightarrow> persist l en =
              (inserted, en\<lparr>indexed_events := indexed_events en @ [new_row (next_event_id en) l],
                            next_event_id := next_event_id en + 1\<rparr>))"
proof -
  have "both_unique (indexed_events (empty_engine st))"
    by (simp add: both_unique_def empty_engine_def)
  then have "both_unique (indexed_events (run ops (empty_engine st)))" by (rule run_unique)
  then show ?thesis
    using apply_op_unique [of en op] by (auto simp: persist_def Let_def)
qed

text \<open>
  The theorem on the log of the specification's example, persisted twice into the empty
  store: the first persist inserts, the second is a duplicate, and one row is stored.
\<close>

theorem store_keys_unique_witness:
  "tx_key (new_row (next_event_id (snd (persist log_100 (empty_engine fresh_state)))) log_100)
     \<in> set (map tx_key (indexed_events (snd (persist log_100 (empty_engine fresh_state)))))
   \<and> fst (persist log_100 (empty_engine fresh_state)) = inserted
   \<and> persist log_100 (snd (persist log_100 (empty_engine fresh_state))) =
       (duplicate, snd (persist log_100 (empty_engine fresh_state)))
   \<and> length (indexed_events (run [Persist log_100, Persist log_100] (empty_engine fresh_state))) = 1
   \<and> both_unique (indexed_events (run [Persist log_100, Persist log_100] (empty_engine fresh_state)))"
proof -
  let ?en = "snd (persist log_100 (empty_engine fresh_state))"
  have k: "tx_key (new_row (next_event_id ?en) log_100) \<in> set (map tx_key (indexed_events ?en))"
    by (simp add: persist_def empty_engine_def Let_def tx_key_def new_row_def)
  have i: "fst (persist log_100 (empty_engine fresh_state)) = inserted"
    by (simp add: persist_def empty_engine_def Let_def)
  have d: "persist log_100 ?en = (duplicate, ?en)"
    using store_keys_unique [of "[]" fresh_state ?en "Persist log_100" log_100] k by blast
  have r: "run [Persist log_100, Persist log_100] (empty_engine fresh_state) = ?en"
    using d by (simp add: run_def)
  have l: "length (indexed_events ?en) = 1"
    by (simp add: persist_def empty_engine_def Let_def)
  have u: "both_unique (indexed_events
        (run [Persist log_100, Persist log_100] (empty_engine fresh_state)))"
    using store_keys_unique [of "[Persist log_100, Persist log_100]" fresh_state ?en
        "Persist log_100" log_100] by blast
  show ?thesis using k i d l u unfolding r by simp
qed

lemma track_event_block [simp]: "ie_blockNumber (track_event H C e) = ie_blockNumber e"
  by (simp add: track_event_def)

lemma fold_track_block [simp]:
  "ie_blockNumber (fold (\<lambda>H'. track_event H' C) Hs e) = ie_blockNumber e"
  by (induction Hs arbitrary: e) simp_all

lemma fold_track_finalized:
  "isFinalized e \<Longrightarrow> fold (\<lambda>H'. track_event H' C) Hs e = e"
  by (induction Hs) (simp_all add: track_event_def)

lemma fold_track_iff:
  assumes "\<not> isFinalized e"
  shows "isFinalized (fold (\<lambda>H'. track_event H' C) Hs e)
           \<longleftrightarrow> (\<exists>H' \<in> set Hs. H' - ie_blockNumber e \<ge> C)"
  using assms
proof (induction Hs arbitrary: e)
  case Nil
  then show ?case by simp
next
  case (Cons H Hs)
  show ?case
  proof (cases "H - ie_blockNumber e \<ge> C")
    case True
    then have "isFinalized (track_event H C e)" using Cons.prems by (simp add: track_event_def)
    then have "fold (\<lambda>H'. track_event H' C) Hs (track_event H C e) = track_event H C e"
      by (rule fold_track_finalized)
    then show ?thesis using True \<open>isFinalized (track_event H C e)\<close> by simp
  next
    case False
    then have n: "\<not> isFinalized (track_event H C e)"
      using Cons.prems by (simp add: track_event_def)
    show ?thesis using Cons.IH [OF n] False by simp
  qed
qed

lemma fold_track_confirmations:
  assumes "\<not> isFinalized (fold (\<lambda>H'. track_event H' C) Hs e)" and "Hs \<noteq> []"
  shows "confirmations (fold (\<lambda>H'. track_event H' C) Hs e) = last Hs - ie_blockNumber e"
  using assms
proof (induction Hs rule: rev_induct)
  case Nil
  then show ?case by simp
next
  case (snoc H Hs)
  define x where "x = fold (\<lambda>H'. track_event H' C) Hs e"
  have bx: "ie_blockNumber x = ie_blockNumber e" by (simp add: x_def)
  have "\<not> isFinalized (track_event H C x)" using snoc.prems(1) by (simp add: x_def)
  then have "\<not> isFinalized x" by (auto simp add: track_event_def)
  then have "confirmations (track_event H C x) = H - ie_blockNumber x"
    by (simp add: track_event_def)
  then show ?case by (simp add: x_def [symmetric] bx)
qed

text \<open>
  C5, for the events that are not yet finalized. A newly stored event has
  \<open>confirmations = 0\<close> and \<open>isFinalized = false\<close>. A confirmation-tracking pass at head \<open>H\<close>
  with \<open>confirmationsRequired = C\<close> applies the tracker to every stored event. An event
  not yet finalized has \<open>confirmations = H - blockNumber\<close> after the pass and is finalized
  by it exactly when \<open>H - blockNumber \<ge> C\<close>; an event already finalized is left as it is,
  whatever the head. So an event is never finalized earlier: after any passes, a newly
  stored event is finalized exactly when one of the heads \<open>H\<close> had
  \<open>H - blockNumber \<ge> C\<close>, and until then its confirmations are those of the last head.
\<close>

theorem finalization_threshold:
  "confirmations (new_row i l) = 0 \<and> \<not> isFinalized (new_row i l)
   \<and> (\<not> isFinalized e \<longrightarrow>
         confirmations (track_event H C e) = H - ie_blockNumber e
         \<and> (isFinalized (track_event H C e) \<longleftrightarrow> H - ie_blockNumber e \<ge> C))
   \<and> (isFinalized e \<longrightarrow> track_event H C e = e)
   \<and> indexed_events (trackConfirmations H C en) = map (track_event H C) (indexed_events en)
   \<and> (isFinalized (fold (\<lambda>H'. track_event H' C) Hs (new_row i l))
         \<longleftrightarrow> (\<exists>H' \<in> set Hs. H' - ol_blockNumber l \<ge> C))
   \<and> (Hs \<noteq> [] \<and> \<not> isFinalized (fold (\<lambda>H'. track_event H' C) Hs (new_row i l)) \<longrightarrow>
         confirmations (fold (\<lambda>H'. track_event H' C) Hs (new_row i l))
           = last Hs - ol_blockNumber l)"
proof -
  have b: "ie_blockNumber (new_row i l) = ol_blockNumber l" "\<not> isFinalized (new_row i l)"
    "confirmations (new_row i l) = 0"
    by (simp_all add: new_row_def)
  have c: "isFinalized (fold (\<lambda>H'. track_event H' C) Hs (new_row i l))
         \<longleftrightarrow> (\<exists>H' \<in> set Hs. H' - ol_blockNumber l \<ge> C)"
    using fold_track_iff [OF b(2), of C Hs] by (simp add: b(1))
  have d: "Hs \<noteq> [] \<and> \<not> isFinalized (fold (\<lambda>H'. track_event H' C) Hs (new_row i l)) \<longrightarrow>
         confirmations (fold (\<lambda>H'. track_event H' C) Hs (new_row i l))
           = last Hs - ol_blockNumber l"
    using fold_track_confirmations [of C Hs "new_row i l"] by (simp add: b(1))
  have e: "\<not> isFinalized e \<longrightarrow>
         confirmations (track_event H C e) = H - ie_blockNumber e
         \<and> (isFinalized (track_event H C e) \<longleftrightarrow> H - ie_blockNumber e \<ge> C)"
    by (auto simp add: track_event_def)
  have f: "isFinalized e \<longrightarrow> track_event H C e = e" by (simp add: track_event_def)
  have g: "indexed_events (trackConfirmations H C en) = map (track_event H C) (indexed_events en)"
    by (simp add: trackConfirmations_def)
  show ?thesis
    by (rule conjI [OF b(3) conjI [OF b(2) conjI [OF e conjI [OF f conjI [OF g conjI [OF c d]]]]]])
qed

text \<open>
  The theorem with \<open>C = 12\<close> on the event of block 100: unfinalized with 5 confirmations
  after the pass at head 105 and with 11 after the passes at heads 105 and 111, finalized
  with 12 confirmations by the pass at head 112.
\<close>

theorem finalization_threshold_witness:
  "\<not> isFinalized (new_row 0 log_100)
   \<and> confirmations (new_row 0 log_100) = 0
   \<and> \<not> isFinalized (track_event 105 12 (new_row 0 log_100))
   \<and> confirmations (track_event 105 12 (new_row 0 log_100)) = 5
   \<and> \<not> isFinalized (fold (\<lambda>H'. track_event H' 12) [105, 111] (new_row 0 log_100))
   \<and> confirmations (fold (\<lambda>H'. track_event H' 12) [105, 111] (new_row 0 log_100)) = 11
   \<and> isFinalized (track_event 112 12 (new_row 0 log_100))
   \<and> confirmations (track_event 112 12 (new_row 0 log_100)) = 12
   \<and> isFinalized (fold (\<lambda>H'. track_event H' 12) [105, 111, 112] (new_row 0 log_100))"
proof -
  have b: "ie_blockNumber (new_row 0 log_100) = 100" "ol_blockNumber log_100 = 100"
    by (simp_all add: new_row_def log_100_def)
  note t = finalization_threshold [of 0 log_100 "new_row 0 log_100" _ 12 "empty_engine fresh_state"]
  have n: "\<not> isFinalized (new_row 0 log_100)" "confirmations (new_row 0 log_100) = 0"
    using t [of 105 "[]"] by simp_all
  have t105: "\<not> isFinalized (track_event 105 12 (new_row 0 log_100))"
    "confirmations (track_event 105 12 (new_row 0 log_100)) = 5"
    using t [of 105 "[]"] n b by simp_all
  have t111: "\<not> isFinalized (fold (\<lambda>H'. track_event H' 12) [105, 111] (new_row 0 log_100))"
    using t [of 105 "[105, 111]"] b by simp
  then have c111: "confirmations (fold (\<lambda>H'. track_event H' 12) [105, 111] (new_row 0 log_100)) = 11"
    using t [of 105 "[105, 111]"] b by simp
  have t112: "isFinalized (track_event 112 12 (new_row 0 log_100))"
    "confirmations (track_event 112 12 (new_row 0 log_100)) = 12"
    using t [of 112 "[]"] n b by simp_all
  have l: "isFinalized (fold (\<lambda>H'. track_event H' 12) [105, 111, 112] (new_row 0 log_100))"
    using t [of 105 "[105, 111, 112]"] b by simp
  show ?thesis
    by (intro conjI) (use n t105 t111 c111 t112 l in \<open>simp_all only: simp_thms\<close>)
qed

text \<open>
  C5 as stated fails for an event that is already finalized: the event of block 100,
  finalized by the pass at head 112, is still finalized after a later pass at head 105,
  where \<open>H - blockNumber = 5\<close> is below \<open>C = 12\<close>, and keeps its 12 confirmations.
\<close>

theorem finalization_kept_counterexample:
  "isFinalized (fold (\<lambda>H'. track_event H' 12) [112, 105] (new_row 0 log_100))
   \<and> confirmations (fold (\<lambda>H'. track_event H' 12) [112, 105] (new_row 0 log_100)) = 12
   \<and> \<not> 105 - ie_blockNumber (new_row 0 log_100) \<ge> (12 :: int)"
  by (simp add: track_event_def new_row_def log_100_def)

end
